theory Spec2Isabelle
  imports Main "HOL-Library.Sublist"
begin

section \<open>Paths, the file system and the event trace\<close>

text \<open>
  A path is the list of its components below the root: the model works with the absolute,
  resolved paths that \<open>pathlib.Path.resolve\<close> returns. \<open>path_str\<close> is \<open>str(path)\<close>
  on a POSIX host, and \<open>p @ [c]\<close> is \<open>p / c\<close>.
\<close>

type_synonym path = "string list"

definition path_str :: "path \<Rightarrow> string" where
  "path_str p = (if p = [] then ''/'' else concat (map (\<lambda>c. CHR ''/'' # c) p))"

text \<open>
  A file holds the text that \<open>f.read()\<close> returns and \<open>f.write\<close> stores; a directory has
  no content of its own, its entries are the paths it is a prefix of.
\<close>

datatype node = File string | Dir

type_synonym filesystem = "path \<Rightarrow> node option"

text \<open>The exceptions the build script raises or lets through.\<close>

datatype error =
    CalledProcessError int "string list"
  | SystemExit int
  | IndexError
  | TypeError
  | NotImplementedError string
  | RuntimeError string
  | FileNotFoundError path
  | FileExistsError path
  | NotADirectoryError path
  | IsADirectoryError path
  | SameFileError path path
  | ExternalError string

text \<open>
  Every effect of the script is logged, in the order it happens. A subprocess is logged
  with its argument vector, its working directory and its exit status.
\<close>

datatype event =
    Subprocess "string list" "path option" int
  | Print string
  | Rmtree path
  | Mkdir path
  | Unlink path
  | OpenW path
  | WriteText path string
  | CopyFile path path
  | Copy2 path path
  | ParsingSpec string string
  | SetEnv string string
  | LogInfo string
  | BuildRust
  | SuperRun

record world =
  fs :: filesystem
  trace :: "event list"

type_synonym step = "world \<Rightarrow> error option \<times> world"

definition emit :: "event \<Rightarrow> world \<Rightarrow> world" where
  "emit e w = w\<lparr>trace := trace w @ [e]\<rparr>"

text \<open>Statement sequencing: an exception of the first statement ends the run.\<close>

definition andthen :: "step \<Rightarrow> step \<Rightarrow> step" where
  "andthen f g w = (case f w of (None, w') \<Rightarrow> g w' | (Some e, w') \<Rightarrow> (Some e, w'))"

definition raise :: "error \<Rightarrow> step" where
  "raise e w = (Some e, w)"

definition new_events :: "world \<Rightarrow> world \<Rightarrow> event list" where
  "new_events w w' = drop (length (trace w)) (trace w')"

subsection \<open>File operations\<close>

definition path_exists :: "filesystem \<Rightarrow> path \<Rightarrow> bool" where
  "path_exists f p = (f p \<noteq> None)"

definition is_file :: "node option \<Rightarrow> bool" where
  "is_file x = (case x of Some (File c) \<Rightarrow> True | _ \<Rightarrow> False)"

text \<open>\<open>open(p, 'r')\<close> followed by \<open>f.read()\<close>.\<close>

definition read_text :: "path \<Rightarrow> filesystem \<Rightarrow> error + string" where
  "read_text p f =
     (case f p of
        None \<Rightarrow> Inl (FileNotFoundError p)
      | Some Dir \<Rightarrow> Inl (IsADirectoryError p)
      | Some (File c) \<Rightarrow> Inr c)"

text \<open>\<open>shutil.rmtree(p)\<close>: the directory and everything below it go.\<close>

definition rmtree :: "path \<Rightarrow> step" where
  "rmtree p w =
     (case fs w p of
        None \<Rightarrow> (Some (FileNotFoundError p), w)
      | Some (File c) \<Rightarrow> (Some (NotADirectoryError p), w)
      | Some Dir \<Rightarrow>
          (None, emit (Rmtree p) (w\<lparr>fs := (\<lambda>q. if prefix p q then None else fs w q)\<rparr>)))"

text \<open>
  \<open>p.mkdir(parents=True, exist_ok=b)\<close>: every missing ancestor is created; a file on
  the way is an error.
\<close>

definition mkdir_parents :: "bool \<Rightarrow> path \<Rightarrow> step" where
  "mkdir_parents exist_ok p w =
     (if list_ex (\<lambda>q. is_file (fs w q)) (prefixes (butlast p))
      then (Some (NotADirectoryError p), w)
      else (case fs w p of
          Some (File c) \<Rightarrow> (Some (FileExistsError p), w)
        | Some Dir \<Rightarrow> if exist_ok then (None, w) else (Some (FileExistsError p), w)
        | None \<Rightarrow>
            (None, emit (Mkdir p)
               (w\<lparr>fs := (\<lambda>q. if prefix q p \<and> fs w q = None then Some Dir else fs w q)\<rparr>))))"

text \<open>
  \<open>open(p, 'w')\<close> creates the file or truncates it at once; the text arrives with
  \<open>f.write\<close> and the close at the end of the \<open>with\<close> block.
\<close>

definition open_w :: "path \<Rightarrow> step" where
  "open_w p w =
     (case fs w (butlast p) of
        None \<Rightarrow> (Some (FileNotFoundError p), w)
      | Some (File c) \<Rightarrow> (Some (NotADirectoryError p), w)
      | Some Dir \<Rightarrow>
          (case fs w p of
             Some Dir \<Rightarrow> (Some (IsADirectoryError p), w)
           | _ \<Rightarrow> (None, emit (OpenW p) (w\<lparr>fs := (fs w)(p \<mapsto> File [])\<rparr>))))"

definition file_write :: "path \<Rightarrow> string \<Rightarrow> step" where
  "file_write p s w = (None, emit (WriteText p s) (w\<lparr>fs := (fs w)(p \<mapsto> File s)\<rparr>))"

section \<open>The embedded-engine build: \<open>_compile_postgres\<close>\<close>

text \<open>
  \<open>ROOT_PATH\<close> is the directory of the script. What the script asks of its host beyond
  it: \<open>platform.system()\<close>,
  \<open>os.cpu_count()\<close>, the exit status and output of \<open>git submodule status postgres\<close>,
  and the external tools, which return an exit status and may change any file.
\<close>

record project =
  ROOT_PATH :: path

record host = project +
  platform_system :: string
  os_cpu_count :: "int option"
  git_submodule_status :: "int \<times> string"
  tool :: "string list \<Rightarrow> path \<Rightarrow> filesystem \<Rightarrow> int \<times> filesystem"

text \<open>\<open>subprocess.run(argv, cwd=cwd, check=True)\<close>.\<close>

definition subprocess_run :: "host \<Rightarrow> string list \<Rightarrow> path \<Rightarrow> step" where
  "subprocess_run h argv cwd w =
     (case fs w cwd of
        None \<Rightarrow> (Some (FileNotFoundError cwd), w)
      | Some (File c) \<Rightarrow> (Some (NotADirectoryError cwd), w)
      | Some Dir \<Rightarrow>
          (case tool h argv cwd (fs w) of
             (rc, f') \<Rightarrow>
               (if rc = 0 then None else Some (CalledProcessError rc argv),
                emit (Subprocess argv (Some cwd) rc) (w\<lparr>fs := f'\<rparr>))))"

definition git_argv :: "string list" where
  "git_argv = [''git'', ''submodule'', ''status'', ''postgres'']"

definition git_status :: "host \<Rightarrow> world \<Rightarrow> (error + string) \<times> world" where
  "git_status h w =
     (case git_submodule_status h of
        (rc, out) \<Rightarrow>
          (if rc = 0 then Inr out else Inl (CalledProcessError rc git_argv),
           emit (Subprocess git_argv None rc) w))"

text \<open>\<open>revision, _, _ = proc.stdout[1:].partition(' ')\<close> and
  \<open>source_stamp = proc.stdout[0] + revision\<close>.\<close>

definition source_stamp_of :: "string \<Rightarrow> error + string" where
  "source_stamp_of out =
     (case out of
        [] \<Rightarrow> Inl IndexError
      | c # rest \<Rightarrow> Inr (c # takeWhile (\<lambda>x. x \<noteq> CHR '' '') rest))"

definition postgres_build :: "path \<Rightarrow> path" where
  "postgres_build build_base = build_base @ [''postgres'']"

definition postgres_src :: "host \<Rightarrow> path" where
  "postgres_src h = ROOT_PATH h @ [''postgres'']"

definition postgres_build_stamp :: "path \<Rightarrow> path" where
  "postgres_build_stamp build_base = postgres_build build_base @ [''stamp'']"

definition build_dir :: "path \<Rightarrow> path" where
  "build_dir build_base = postgres_build build_base @ [''build'']"

text \<open>The stamp of the last build, \<open>None\<close> when there is no stamp file.\<close>

definition read_build_stamp :: "path \<Rightarrow> filesystem \<Rightarrow> error + string option" where
  "read_build_stamp p f =
     (if path_exists f p
      then (case read_text p f of Inl e \<Rightarrow> Inl e | Inr c \<Rightarrow> Inr (Some c))
      else Inr None)"

text \<open>\<open>is_outdated = source_stamp != build_stamp\<close>.\<close>

definition is_outdated :: "string \<Rightarrow> string option \<Rightarrow> bool" where
  "is_outdated source_stamp build_stamp = (Some source_stamp \<noteq> build_stamp)"

definition uuidlib_for :: "string \<Rightarrow> error + string" where
  "uuidlib_for system =
     (if system = ''Darwin'' then Inr ''e2fs''
      else if system = ''Linux'' then Inr ''e2fs''
      else Inl (NotImplementedError (''unsupported system: '' @ system)))"

definition prepare_build_dir :: "path \<Rightarrow> bool \<Rightarrow> step" where
  "prepare_build_dir build_base fresh_build =
     andthen
       (\<lambda>w. if fresh_build \<and> path_exists (fs w) (postgres_build build_base)
            then rmtree (postgres_build build_base) w else (None, w))
       (\<lambda>w. if \<not> path_exists (fs w) (build_dir build_base)
            then mkdir_parents False (build_dir build_base) w else (None, w))"

text \<open>Python's \<open>str\<close> of an integer.\<close>

definition digit_char :: "nat \<Rightarrow> char" where
  "digit_char d = ''0123456789'' ! d"

fun str_nat :: "nat \<Rightarrow> string" where
  "str_nat n =
     (if n < 10 then [digit_char n]
      else str_nat (n div 10) @ [digit_char (n mod 10)])"

declare str_nat.simps [simp del]

definition str_int :: "int \<Rightarrow> string" where
  "str_int i = (if i < 0 then CHR ''-'' # str_nat (nat (- i)) else str_nat (nat i))"

text \<open>\<open>str(max(os.cpu_count() - 1, 1))\<close>; \<open>os.cpu_count()\<close> may be \<open>None\<close>.\<close>

definition jobs_arg :: "host \<Rightarrow> error + string" where
  "jobs_arg h =
     (case os_cpu_count h of
        None \<Rightarrow> Inl TypeError
      | Some n \<Rightarrow> Inr (str_int (max (n - 1) 1)))"

definition configure_argv :: "host \<Rightarrow> path \<Rightarrow> string \<Rightarrow> string list" where
  "configure_argv h build_base uuidlib =
     [path_str (postgres_src h @ [''configure'']),
      ''--prefix='' @ path_str (postgres_build build_base @ [''install'']),
      ''--with-uuid='' @ uuidlib]"

definition make_argv :: "string \<Rightarrow> string list" where
  "make_argv j = [''make'', ''MAKELEVEL=0'', ''-j'', j]"

definition make_contrib_argv :: "string \<Rightarrow> string list" where
  "make_contrib_argv j = [''make'', ''-C'', ''contrib'', ''MAKELEVEL=0'', ''-j'', j]"

definition make_install_argv :: "string list" where
  "make_install_argv = [''make'', ''MAKELEVEL=0'', ''install'']"

definition make_contrib_install_argv :: "string list" where
  "make_contrib_install_argv = [''make'', ''-C'', ''contrib'', ''MAKELEVEL=0'', ''install'']"

definition run_with_jobs :: "host \<Rightarrow> (string \<Rightarrow> string list) \<Rightarrow> path \<Rightarrow> step" where
  "run_with_jobs h argv cwd =
     (case jobs_arg h of
        Inl e \<Rightarrow> raise e
      | Inr j \<Rightarrow> subprocess_run h (argv j) cwd)"

text \<open>Lines 221 to 247: configure, make, make in contrib, and the two installs.\<close>

definition toolchain :: "host \<Rightarrow> path \<Rightarrow> string \<Rightarrow> bool \<Rightarrow> bool \<Rightarrow> bool \<Rightarrow> bool \<Rightarrow> step" where
  "toolchain h build_base uuidlib fresh_build run_configure build_contrib outdated =
     andthen
       (if run_configure \<or> fresh_build \<or> outdated
        then subprocess_run h (configure_argv h build_base uuidlib) (build_dir build_base)
        else Pair None)
    (andthen
       (run_with_jobs h make_argv (build_dir build_base))
    (andthen
       (if build_contrib \<or> fresh_build \<or> outdated
        then run_with_jobs h make_contrib_argv (build_dir build_base)
        else Pair None)
    (andthen
       (subprocess_run h make_install_argv (build_dir build_base))
       (if build_contrib \<or> fresh_build \<or> outdated
        then subprocess_run h make_contrib_install_argv (build_dir build_base)
        else Pair None))))"

text \<open>Lines 249 and 250: the stamp file is opened for writing, then written.\<close>

definition write_stamp :: "path \<Rightarrow> string \<Rightarrow> step" where
  "write_stamp p source_stamp = andthen (open_w p) (file_write p source_stamp)"

text \<open>The body of \<open>if is_outdated or force_build\<close>.\<close>

definition rebuild :: "host \<Rightarrow> path \<Rightarrow> bool \<Rightarrow> bool \<Rightarrow> bool \<Rightarrow> bool \<Rightarrow> string \<Rightarrow> step" where
  "rebuild h build_base fresh_build run_configure build_contrib outdated source_stamp =
     (case uuidlib_for (platform_system h) of
        Inl e \<Rightarrow> raise e
      | Inr uuidlib \<Rightarrow>
          andthen (prepare_build_dir build_base fresh_build)
         (andthen
            (toolchain h build_base uuidlib fresh_build run_configure build_contrib outdated)
            (write_stamp (postgres_build_stamp build_base) source_stamp)))"

definition not_initialized_message :: string where
  "not_initialized_message =
     ''postgres submodule not initialized, run `git submodule init; git submodule update`''"

definition compile_postgres :: "host \<Rightarrow> path \<Rightarrow> bool \<Rightarrow> bool \<Rightarrow> bool \<Rightarrow> bool \<Rightarrow> step" where
  "compile_postgres h build_base force_build fresh_build run_configure build_contrib w =
     (case git_status h w of
        (Inl e, w1) \<Rightarrow> (Some e, w1)
      | (Inr status, w1) \<Rightarrow>
          (case status of
             [] \<Rightarrow> (Some IndexError, w1)
           | c # _ \<Rightarrow>
               if c = CHR ''-''
               then (Some (SystemExit 1), emit (Print not_initialized_message) w1)
               else
                 (case git_status h w1 of
                    (Inl e, w2) \<Rightarrow> (Some e, w2)
                  | (Inr out, w2) \<Rightarrow>
                      (case source_stamp_of out of
                         Inl e \<Rightarrow> (Some e, w2)
                       | Inr source_stamp \<Rightarrow>
                           (case read_build_stamp (postgres_build_stamp build_base) (fs w2) of
                              Inl e \<Rightarrow> (Some e, w2)
                            | Inr build_stamp \<Rightarrow>
                                if is_outdated source_stamp build_stamp \<or> force_build
                                then rebuild h build_base fresh_build run_configure
                                       build_contrib
                                       (is_outdated source_stamp build_stamp)
                                       source_stamp w2
                                else (None, w2))))))"

section \<open>The grammar cache: \<open>_compile_parsers\<close>\<close>

text \<open>
  \<open>pathlib.Path(s)\<close> for a string: the path is absolute when the string starts with a
  slash, and its components are the pieces between slashes, without the empty ones and
  without \<open>.\<close> components. \<open>p / q\<close> is \<open>q\<close> when \<open>q\<close> is absolute.
\<close>

fun split_on :: "char \<Rightarrow> string \<Rightarrow> string list" where
  "split_on c [] = [[]]"
| "split_on c (x # xs) =
     (if x = c then [] # split_on c xs
      else (case split_on c xs of [] \<Rightarrow> [[x]] | y # ys \<Rightarrow> (x # y) # ys))"

type_synonym pure_path = "bool \<times> string list"

definition parse_path :: "string \<Rightarrow> pure_path" where
  "parse_path s =
     (take 1 s = ''/'', filter (\<lambda>c. c \<noteq> [] \<and> c \<noteq> ''.'') (split_on CHR ''/'' s))"

definition join_pure :: "pure_path \<Rightarrow> pure_path \<Rightarrow> pure_path" where
  "join_pure p q = (if fst q then q else (fst p, snd p @ snd q))"

definition joinpath :: "path \<Rightarrow> pure_path \<Rightarrow> path" where
  "joinpath p q = (if fst q then snd q else p @ snd q)"

text \<open>\<open>s.rpartition(c)[2]\<close>: what follows the last \<open>c\<close>, all of \<open>s\<close> when there is none.\<close>

definition rpartition_last :: "char \<Rightarrow> string \<Rightarrow> string" where
  "rpartition_last c s = rev (takeWhile (\<lambda>x. x \<noteq> c) (rev s))"

text \<open>
  \<open>shutil.copyfile(src, dst)\<close> writes the content of the file \<open>src\<close> to \<open>dst\<close>;
  \<open>shutil.copy2(src, dst)\<close> does the same, into the directory \<open>dst\<close> when \<open>dst\<close> is one.
\<close>

definition copy_content :: "path \<Rightarrow> path \<Rightarrow> filesystem \<Rightarrow> error + filesystem" where
  "copy_content src dst f =
     (if src = dst \<and> f src \<noteq> None then Inl (SameFileError src dst)
      else (case f src of
          None \<Rightarrow> Inl (FileNotFoundError src)
        | Some Dir \<Rightarrow> Inl (IsADirectoryError src)
        | Some (File c) \<Rightarrow>
            (case f dst of
               Some Dir \<Rightarrow> Inl (IsADirectoryError dst)
             | _ \<Rightarrow>
                 (case f (butlast dst) of
                    None \<Rightarrow> Inl (FileNotFoundError dst)
                  | Some (File x) \<Rightarrow> Inl (NotADirectoryError dst)
                  | Some Dir \<Rightarrow> Inr (f(dst \<mapsto> File c))))))"

definition copyfile :: "path \<Rightarrow> path \<Rightarrow> step" where
  "copyfile src dst w =
     (case copy_content src dst (fs w) of
        Inl e \<Rightarrow> (Some e, w)
      | Inr f \<Rightarrow> (None, emit (CopyFile src dst) (w\<lparr>fs := f\<rparr>)))"

definition copy2 :: "path \<Rightarrow> path \<Rightarrow> step" where
  "copy2 src dst w =
     (case copy_content src
             (if fs w dst = Some Dir then dst @ (if src = [] then [] else [last src]) else dst)
             (fs w) of
        Inl e \<Rightarrow> (Some e, w)
      | Inr f \<Rightarrow> (None, emit (Copy2 src dst) (w\<lparr>fs := f\<rparr>)))"

text \<open>
  What the function asks of its environment: the \<open>__file__\<close> of each imported grammar
  module, and the table compiler \<open>parsing.Spec\<close> of the \<open>parsing\<close> library, which is
  handed the module and the pickle file and may raise and change files.
\<close>

record grammar_env = project +
  module_file :: "string \<Rightarrow> path"
  parsing_Spec :: "string \<Rightarrow> path \<Rightarrow> filesystem \<Rightarrow> error option \<times> filesystem"

text \<open>The three modules of the \<open>for\<close> loop, by their \<open>__name__\<close>.\<close>

definition grammar_specs :: "string list" where
  "grammar_specs =
     [''edb.edgeql.parser.grammar.single'',
      ''edb.edgeql.parser.grammar.block'',
      ''edb.edgeql.parser.grammar.sdldocument'']"

text \<open>Lines 119 to 122: \<open>spec_path\<close>, \<open>subpath\<close>, \<open>pickle_name\<close> and \<open>pickle_path\<close>.\<close>

definition pickle_path :: "'a grammar_env_scheme \<Rightarrow> string \<Rightarrow> pure_path" where
  "pickle_path env spec =
     (let spec_path = butlast (module_file env spec);
          subpath = parse_path
            (drop (length (path_str (ROOT_PATH env)) + 1) (path_str spec_path));
          pickle_name = rpartition_last CHR ''.'' spec @ ''.pickle''
      in join_pure subpath (parse_path pickle_name))"

definition run_parsing_Spec :: "'a grammar_env_scheme \<Rightarrow> string \<Rightarrow> path \<Rightarrow> step" where
  "run_parsing_Spec env spec cache w =
     (case parsing_Spec env spec cache (fs w) of
        (r, f) \<Rightarrow> (r, emit (ParsingSpec spec (path_str cache)) (w\<lparr>fs := f\<rparr>)))"

text \<open>The body of the loop, lines 119 to 127.\<close>

definition compile_spec :: "'a grammar_env_scheme \<Rightarrow> path \<Rightarrow> bool \<Rightarrow> string \<Rightarrow> step" where
  "compile_spec env build_lib inplace spec =
     (let cache = joinpath build_lib (pickle_path env spec) in
      andthen (mkdir_parents True (butlast cache))
     (andthen (run_parsing_Spec env spec cache)
        (if inplace
         then copy2 cache (joinpath (ROOT_PATH env) (pickle_path env spec))
         else Pair None)))"

fun compile_specs :: "'a grammar_env_scheme \<Rightarrow> path \<Rightarrow> bool \<Rightarrow> string list \<Rightarrow> step" where
  "compile_specs env build_lib inplace [] = Pair None"
| "compile_specs env build_lib inplace (spec # specs) =
     andthen (compile_spec env build_lib inplace spec)
       (compile_specs env build_lib inplace specs)"

definition compile_parsers :: "'a grammar_env_scheme \<Rightarrow> path \<Rightarrow> bool \<Rightarrow> step" where
  "compile_parsers env build_lib inplace = compile_specs env build_lib inplace grammar_specs"

section \<open>The native extensions: \<open>build_ext.run\<close>\<close>

text \<open>Python compares the component lists of two versions lexicographically.\<close>

fun version_less :: "nat list \<Rightarrow> nat list \<Rightarrow> bool" where
  "version_less [] [] = False"
| "version_less [] (y # ys) = True"
| "version_less (x # xs) [] = False"
| "version_less (x # xs) (y # ys) = (x < y \<or> (x = y \<and> version_less xs ys))"

definition RUST_VERSION :: "nat list" where
  "RUST_VERSION = [1, 42, 0]"

text \<open>
  What the command asks of its environment: the names of the Rust extensions, its own
  \<open>inplace\<close> and \<open>build_temp\<close> options, \<open>get_ext_fullpath\<close> for either value of
  \<open>inplace\<close>, the exit status and the version that \<open>rustc -V\<close> prints (\<open>None\<close> when there
  is no \<open>rustc\<close>), and the two build steps it delegates to: \<open>build_rust.run()\<close> of
  setuptools-rust and the \<open>run()\<close> of the distutils command, which may raise and change
  files. The version is taken as parsed, a list of numbers.
\<close>

record ext_env =
  rust_extensions :: "string list"
  self_inplace :: bool
  self_build_temp :: path
  get_ext_fullpath :: "bool \<Rightarrow> string \<Rightarrow> path"
  rustc_V :: "(int \<times> nat list) option"
  build_rust_run :: "filesystem \<Rightarrow> error option \<times> filesystem"
  super_run :: "filesystem \<Rightarrow> error option \<times> filesystem"

definition check_rust :: "ext_env \<Rightarrow> step" where
  "check_rust env w =
     (case rustc_V env of
        None \<Rightarrow>
          (Some (RuntimeError
             ''please install rustc >= 1.42.0 to compile edgedb from source (see https://rustup.rs/)''),
           w)
      | Some (rc, ver) \<Rightarrow>
          (if rc \<noteq> 0 then Some (CalledProcessError rc [''rustc'', ''-V''])
           else if version_less ver RUST_VERSION
           then Some (RuntimeError ''please upgrade Rust to 1.42.0 to compile edgedb from source'')
           else None,
           emit (Subprocess [''rustc'', ''-V''] None rc) w))"

text \<open>\<open>p.unlink()\<close>.\<close>

definition unlink :: "path \<Rightarrow> step" where
  "unlink p w =
     (case fs w p of
        None \<Rightarrow> (Some (FileNotFoundError p), w)
      | Some Dir \<Rightarrow> (Some (IsADirectoryError p), w)
      | Some (File c) \<Rightarrow> (None, emit (Unlink p) (w\<lparr>fs := (fs w)(p := None)\<rparr>)))"

text \<open>
  The body of the loop of lines 492 to 510 for one extension: the file at the in-place
  path is unlinked when there is one, and the directory of that path is made.
\<close>

definition place_ext :: "ext_env \<Rightarrow> string \<Rightarrow> step" where
  "place_ext env name =
     (let target_path = get_ext_fullpath env True name in
      andthen
        (\<lambda>w. if path_exists (fs w) target_path then unlink target_path w else (None, w))
        (mkdir_parents True (butlast target_path)))"

fun plan_placement :: "ext_env \<Rightarrow> string list \<Rightarrow> step" where
  "plan_placement env [] = Pair None"
| "plan_placement env (name # names) =
     andthen (place_ext env name) (plan_placement env names)"

definition copy_list :: "ext_env \<Rightarrow> (path \<times> path) list" where
  "copy_list env =
     (if self_inplace env then []
      else map (\<lambda>name. (get_ext_fullpath env False name, get_ext_fullpath env True name))
             (rust_extensions env))"

fun copy_all :: "(path \<times> path) list \<Rightarrow> step" where
  "copy_all [] = Pair None"
| "copy_all ((src, dst) # rest) = andthen (copyfile src dst) (copy_all rest)"

definition run_build_rust :: "ext_env \<Rightarrow> step" where
  "run_build_rust env w =
     (case build_rust_run env (fs w) of (r, f) \<Rightarrow> (r, emit BuildRust (w\<lparr>fs := f\<rparr>)))"

definition run_super :: "ext_env \<Rightarrow> step" where
  "run_super env w =
     (case super_run env (fs w) of (r, f) \<Rightarrow> (r, emit SuperRun (w\<lparr>fs := f\<rparr>)))"

definition log_event :: "event \<Rightarrow> step" where
  "log_event e w = (None, emit e w)"

definition build_ext_run :: "ext_env \<Rightarrow> step" where
  "build_ext_run env =
     andthen
       (if rust_extensions env \<noteq> []
        then
          andthen (log_event (LogInfo ''running build_rust''))
         (andthen (check_rust env)
         (andthen
            (if \<not> self_inplace env
             then plan_placement env (rust_extensions env) else Pair None)
         (andthen
            (log_event (SetEnv ''CARGO_TARGET_DIR''
               (path_str (self_build_temp env @ [''rust'', ''extensions'']))))
         (andthen (run_build_rust env) (copy_all (copy_list env))))))
        else Pair None)
       (run_super env)"

section \<open>Notions used in the statements\<close>

text \<open>
  What an event of the trace says about a subprocess: whether it is one, its argument
  vector, and its exit status (zero for every other event).
\<close>

fun is_subprocess :: "event \<Rightarrow> bool" where
  "is_subprocess (Subprocess a c rc) = True"
| "is_subprocess _ = False"

fun event_argv :: "event \<Rightarrow> string list" where
  "event_argv (Subprocess a c rc) = a"
| "event_argv _ = []"

fun event_status :: "event \<Rightarrow> int" where
  "event_status (Subprocess a c rc) = rc"
| "event_status _ = 0"

text \<open>The exit status and command that a \<open>CalledProcessError\<close> carries.\<close>

fun called_process_error :: "error option \<Rightarrow> (int \<times> string list) option" where
  "called_process_error (Some (CalledProcessError rc a)) = Some (rc, a)"
| "called_process_error _ = None"

text \<open>The argument that follows \<open>-j\<close> in an argument vector.\<close>

fun j_argument :: "string list \<Rightarrow> string option" where
  "j_argument (x # y # ys) = (if x = ''-j'' then Some y else j_argument (y # ys))"
| "j_argument _ = None"

text \<open>
  The two \<open>git submodule status\<close> calls that open every run, and the world after
  them: \<open>git\<close> is only asked, it changes no file.
\<close>

definition git_event :: "host \<Rightarrow> event" where
  "git_event h = Subprocess git_argv None (fst (git_submodule_status h))"

definition after_git :: "host \<Rightarrow> world \<Rightarrow> world" where
  "after_git h w = emit (git_event h) (emit (git_event h) w)"

text \<open>
  The toolchain commands of lines 221 to 247 in the order of the source, for given flags:
  \<open>configure\<close> when asked for, \<open>make\<close>, \<open>make\<close> in contrib when asked for, and the
  installs. When \<open>os.cpu_count()\<close> is \<open>None\<close> the first \<open>make\<close> line raises before
  it starts a process.
\<close>

definition toolchain_commands ::
  "host \<Rightarrow> path \<Rightarrow> string \<Rightarrow> bool \<Rightarrow> bool \<Rightarrow> bool \<Rightarrow> bool \<Rightarrow> string list list" where
  "toolchain_commands h build_base uuidlib fresh_build run_configure build_contrib outdated =
     (if run_configure \<or> fresh_build \<or> outdated
      then [configure_argv h build_base uuidlib] else []) @
     (case jobs_arg h of
        Inl e \<Rightarrow> []
      | Inr j \<Rightarrow>
          [make_argv j] @
          (if build_contrib \<or> fresh_build \<or> outdated then [make_contrib_argv j] else []) @
          [make_install_argv] @
          (if build_contrib \<or> fresh_build \<or> outdated then [make_contrib_install_argv] else []))"

text \<open>
  The value of \<open>is_outdated\<close> for a host and a file system, when the run gets as far as
  computing it.
\<close>

definition stamp_outdated :: "host \<Rightarrow> path \<Rightarrow> filesystem \<Rightarrow> bool" where
  "stamp_outdated h build_base f =
     (case source_stamp_of (snd (git_submodule_status h)) of
        Inl e \<Rightarrow> True
      | Inr s \<Rightarrow>
          (case read_build_stamp (postgres_build_stamp build_base) f of
             Inl e \<Rightarrow> True
           | Inr b \<Rightarrow> is_outdated s b))"

text \<open>
  No file stands where the build directory or one of its ancestors should be: then the
  directory preparation of lines 215 to 219 cannot fail.
\<close>

definition build_tree_ok :: "filesystem \<Rightarrow> path \<Rightarrow> bool" where
  "build_tree_ok f build_base = list_all (\<lambda>q. \<not> is_file (f q)) (prefixes (build_dir build_base))"

text \<open>The events that open a file for writing or write to it.\<close>

fun is_write :: "event \<Rightarrow> bool" where
  "is_write (OpenW p) = True"
| "is_write (WriteText p s) = True"
| "is_write _ = False"

text \<open>
  The external tools leave the path \<open>p\<close> alone: whatever the command, its working
  directory and the files, \<open>p\<close> is afterwards what it was.
\<close>

definition tool_keeps :: "host \<Rightarrow> path \<Rightarrow> bool" where
  "tool_keeps h p = (\<forall>a c f. snd (tool h a c f) p = f p)"

text \<open>
  A host and a build tree to run the script on: a Linux host with four processors whose
  submodule is at revision \<open>abc123\<close>, one command of which fails with status 2, and a
  build directory with a stamp file.
\<close>

definition demo_fs :: "string \<Rightarrow> filesystem" where
  "demo_fs stamp =
     [[] \<mapsto> Dir, [''b''] \<mapsto> Dir, [''b'', ''postgres''] \<mapsto> Dir,
      [''b'', ''postgres'', ''build''] \<mapsto> Dir,
      [''b'', ''postgres'', ''stamp''] \<mapsto> File stamp]"

definition demo_host :: "string \<Rightarrow> string list \<Rightarrow> host" where
  "demo_host system failing =
     \<lparr>ROOT_PATH = [''src''], platform_system = system, os_cpu_count = Some 4,
      git_submodule_status = (0, '' abc123 postgres (REL_12)''),
      tool = (\<lambda>argv cwd f. (if argv = failing then 2 else 0, f))\<rparr>"

definition demo_world :: "string \<Rightarrow> world" where
  "demo_world stamp = \<lparr>fs = demo_fs stamp, trace = []\<rparr>"

text \<open>
  The grammar modules as the source tree has them: in \<open>edb/edgeql/parser/grammar\<close> below
  the project root, which is not the root of the file system. \<open>cache_path\<close> and
  \<open>mirror_path\<close> are then the pickle file of a module below \<open>build_lib\<close> and below the
  project root.
\<close>

definition grammar_dir :: path where
  "grammar_dir = [''edb'', ''edgeql'', ''parser'', ''grammar'']"

definition pickle_name :: "string \<Rightarrow> string" where
  "pickle_name spec = rpartition_last CHR ''.'' spec @ ''.pickle''"

definition cache_path :: "path \<Rightarrow> string \<Rightarrow> path" where
  "cache_path build_lib spec = build_lib @ grammar_dir @ [pickle_name spec]"

definition mirror_path :: "'a grammar_env_scheme \<Rightarrow> string \<Rightarrow> path" where
  "mirror_path env spec = ROOT_PATH env @ grammar_dir @ [pickle_name spec]"

definition in_source_tree :: "'a grammar_env_scheme \<Rightarrow> bool" where
  "in_source_tree env =
     (ROOT_PATH env \<noteq> [] \<and>
      list_all (\<lambda>spec. module_file env spec =
         ROOT_PATH env @ grammar_dir @ [rpartition_last CHR ''.'' spec @ ''.py'']) grammar_specs)"

text \<open>The events of the table compiler and of the copies.\<close>

fun is_parsing :: "event \<Rightarrow> bool" where
  "is_parsing (ParsingSpec n s) = True"
| "is_parsing _ = False"

fun is_copy :: "event \<Rightarrow> bool" where
  "is_copy (CopyFile s d) = True"
| "is_copy (Copy2 s d) = True"
| "is_copy _ = False"

text \<open>
  The table compiler changes no path but the pickle file it is handed.
\<close>

definition lib_writes_only_pickle :: "'a grammar_env_scheme \<Rightarrow> bool" where
  "lib_writes_only_pickle env =
     (\<forall>spec cache f q. q \<noteq> cache \<longrightarrow> snd (parsing_Spec env spec cache f) q = f q)"

text \<open>
  A source tree and a table compiler to run \<open>_compile_parsers\<close> on: the compiler writes
  a pickle file that names its module.
\<close>

definition demo_grammar_env :: grammar_env where
  "demo_grammar_env =
     \<lparr>ROOT_PATH = [''src''],
      module_file = (\<lambda>spec. [''src''] @ grammar_dir @ [rpartition_last CHR ''.'' spec @ ''.py'']),
      parsing_Spec = (\<lambda>spec cache f. (None, f(cache \<mapsto> File (''tables of '' @ spec))))\<rparr>"

definition demo_source_tree :: world where
  "demo_source_tree =
     \<lparr>fs = [[] \<mapsto> Dir, [''src''] \<mapsto> Dir, [''src'', ''edb''] \<mapsto> Dir,
             [''src'', ''edb'', ''edgeql''] \<mapsto> Dir,
             [''src'', ''edb'', ''edgeql'', ''parser''] \<mapsto> Dir,
             [''src'', ''edb'', ''edgeql'', ''parser'', ''grammar''] \<mapsto> Dir],
      trace = []\<rparr>"

section \<open>Reasoning about runs\<close>

text \<open>
  \<open>events_spec Q f\<close>: every run of the step \<open>f\<close> only appends to the trace, and its
  result and the appended events satisfy \<open>Q\<close>.
\<close>

definition events_spec :: "(error option \<Rightarrow> event list \<Rightarrow> bool) \<Rightarrow> step \<Rightarrow> bool" where
  "events_spec Q f =
     (\<forall>w res w'. f w = (res, w') \<longrightarrow> (\<exists>evs. trace w' = trace w @ evs \<and> Q res evs))"

text \<open>
  Fail-fast: every event but the last has status zero, and the run ends in a
  \<open>CalledProcessError\<close> exactly when the last event has a non-zero status, which the
  error then carries with the command.
\<close>

definition failfast :: "error option \<Rightarrow> event list \<Rightarrow> bool" where
  "failfast res evs =
     (list_all (\<lambda>e. event_status e = 0) (butlast evs) \<and>
      called_process_error res =
        (if evs \<noteq> [] \<and> event_status (last evs) \<noteq> 0
         then Some (event_status (last evs), event_argv (last evs)) else None))"

text \<open>
  \<open>ran cmds res evs\<close>: the subprocesses among the events ran the commands \<open>cmds\<close> in
  order, all of them when the run succeeded.
\<close>

definition ran :: "string list list \<Rightarrow> error option \<Rightarrow> event list \<Rightarrow> bool" where
  "ran cmds res evs =
     (prefix (map event_argv (filter is_subprocess evs)) cmds \<and>
      (res = None \<longrightarrow> map event_argv (filter is_subprocess evs) = cmds))"

text \<open>A step that never changes what is at the path \<open>p\<close>.\<close>

definition keeps :: "path \<Rightarrow> step \<Rightarrow> bool" where
  "keeps p f = (\<forall>w res w'. f w = (res, w') \<longrightarrow> fs w' p = fs w p)"

text \<open>
  The events of a step hold no write; and: they hold no write when the step fails, and
  when it succeeds their last two are the opening and the writing of the stamp file, the
  only writes.
\<close>

definition no_write :: "error option \<Rightarrow> event list \<Rightarrow> bool" where
  "no_write res evs = (filter is_write evs = [])"

definition writes_last :: "path \<Rightarrow> string \<Rightarrow> error option \<Rightarrow> event list \<Rightarrow> bool" where
  "writes_last p s res evs =
     (if res = None
      then evs = filter (\<lambda>e. \<not> is_write e) evs @ [OpenW p, WriteText p s]
      else filter is_write evs = [])"

text \<open>
  \<open>did sel xs res evs\<close>: the events that \<open>sel\<close> selects are a prefix of \<open>xs\<close>, and all of
  \<open>xs\<close> when the run succeeded.
\<close>

definition did :: "(event \<Rightarrow> bool) \<Rightarrow> event list \<Rightarrow> error option \<Rightarrow> event list \<Rightarrow> bool" where
  "did sel xs res evs = (prefix (filter sel evs) xs \<and> (res = None \<longrightarrow> filter sel evs = xs))"

section \<open>Auxiliary notions for \<open>build_ext.run\<close>\<close>

text \<open>The events of the placement loop: the removal of a file and the making of a directory.\<close>

fun is_placement :: "event \<Rightarrow> bool" where
  "is_placement (Unlink p) = True"
| "is_placement (Mkdir p) = True"
| "is_placement _ = False"

definition placed :: "error option \<Rightarrow> event list \<Rightarrow> bool" where
  "placed res evs = list_all is_placement evs"

text \<open>
  The successful call of \<open>rustc -V\<close>, the setting of \<open>CARGO_TARGET_DIR\<close>, and the state in
  which the placement loop starts: after the log line and the toolchain check.
\<close>

definition rustc_event :: event where
  "rustc_event = Subprocess [''rustc'', ''-V''] None 0"

definition cargo_target_event :: "ext_env \<Rightarrow> event" where
  "cargo_target_event env =
     SetEnv ''CARGO_TARGET_DIR'' (path_str (self_build_temp env @ [''rust'', ''extensions'']))"

definition checked :: "world \<Rightarrow> world" where
  "checked w = emit rustc_event (emit (LogInfo ''running build_rust'') w)"

text \<open>
  A build to run \<open>build_ext.run\<close> on: one Rust extension, not built in place, an old
  module at its in-place path, and a Rust build step that writes the new module below
  \<open>build_lib\<close>.
\<close>

definition demo_ext_env :: ext_env where
  "demo_ext_env =
     \<lparr>rust_extensions = [''edb._edgeql_rust''], self_inplace = False,
      self_build_temp = [''b'', ''temp''],
      get_ext_fullpath = (\<lambda>inplace name.
         (if inplace then [''src''] else [''b'', ''lib'']) @
           butlast (split_on CHR ''.'' name) @ [last (split_on CHR ''.'' name) @ ''.so'']),
      rustc_V = Some (0, [1, 42, 0]),
      build_rust_run = (\<lambda>f. (None, f([''b'', ''lib'', ''edb'', ''_edgeql_rust.so''] \<mapsto> File ''new''))),
      super_run = Pair None\<rparr>"

definition demo_ext_world :: world where
  "demo_ext_world =
     \<lparr>fs = [[] \<mapsto> Dir, [''src''] \<mapsto> Dir, [''src'', ''edb''] \<mapsto> Dir,
             [''src'', ''edb'', ''_edgeql_rust.so''] \<mapsto> File ''old'',
             [''b''] \<mapsto> Dir, [''b'', ''lib''] \<mapsto> Dir, [''b'', ''lib'', ''edb''] \<mapsto> Dir],
      trace = []\<rparr>"

section \<open>Lemmas\<close>

lemma andthen_None: "f w = (None, w1) \<Longrightarrow> andthen f g w = g w1"
  by (simp add: andthen_def)

lemma andthen_Some: "f w = (Some e, w1) \<Longrightarrow> andthen f g w = (Some e, w1)"
  by (simp add: andthen_def)

lemma andthen_Pair_left: "andthen (Pair None) g = g"
  by (rule ext) (simp add: andthen_def)

lemma andthen_Pair_right: "andthen f (Pair None) = f"
  by (rule ext) (simp add: andthen_def split: prod.splits option.splits)

lemma andthen_assoc: "andthen (andthen f g) k = andthen f (andthen g k)"
  by (rule ext) (simp add: andthen_def split: prod.splits option.splits)

lemma andthen_cases:
  assumes "andthen f g w = (res, w')"
  obtains (first) e where "f w = (Some e, w')" "res = Some e"
        | (second) w1 where "f w = (None, w1)" "g w1 = (res, w')"
  using assms by (auto simp: andthen_def split: prod.splits option.splits)

lemma events_specD:
  "events_spec Q f \<Longrightarrow> f w = (res, w') \<Longrightarrow> trace w' = trace w @ new_events w w' \<and> Q res (new_events w w')"
proof -
  assume a: "events_spec Q f" "f w = (res, w')"
  then obtain evs where "trace w' = trace w @ evs" "Q res evs"
    unfolding events_spec_def by blast
  then show ?thesis by (simp add: new_events_def)
qed

lemma events_spec_andthen:
  assumes "events_spec Q1 f" "events_spec Q2 g"
    and "\<And>e evs. Q1 (Some e) evs \<Longrightarrow> Q (Some e) evs"
    and "\<And>r e1 e2. Q1 None e1 \<Longrightarrow> Q2 r e2 \<Longrightarrow> Q r (e1 @ e2)"
  shows "events_spec Q (andthen f g)"
  unfolding events_spec_def
proof (intro allI impI)
  fix w res w' assume run: "andthen f g w = (res, w')"
  then show "\<exists>evs. trace w' = trace w @ evs \<and> Q res evs"
  proof (cases rule: andthen_cases)
    case (first e)
    with assms(1) obtain evs where "trace w' = trace w @ evs" "Q1 (Some e) evs"
      unfolding events_spec_def by blast
    with first assms(3) show ?thesis by auto
  next
    case (second w1)
    from assms(1) second(1) obtain e1 where e1: "trace w1 = trace w @ e1" "Q1 None e1"
      unfolding events_spec_def by blast
    from assms(2) second(2) obtain e2 where e2: "trace w' = trace w1 @ e2" "Q2 res e2"
      unfolding events_spec_def by blast
    from e1 e2 assms(4) show ?thesis by auto
  qed
qed

lemma events_spec_weaken:
  "events_spec Q f \<Longrightarrow> (\<And>r evs. Q r evs \<Longrightarrow> Q' r evs) \<Longrightarrow> events_spec Q' f"
  unfolding events_spec_def by blast

lemma failfast_None: "failfast None evs = list_all (\<lambda>e. event_status e = 0) evs"
proof (cases evs rule: rev_cases)
  case Nil
  then show ?thesis by (simp add: failfast_def)
next
  case (snoc xs x)
  then show ?thesis by (auto simp: failfast_def)
qed

lemma failfast_append:
  assumes "failfast None e1" "failfast r e2"
  shows "failfast r (e1 @ e2)"
proof (cases "e2 = []")
  case True
  with assms(2) have "called_process_error r = None" by (simp add: failfast_def)
  moreover from assms(1) have "list_all (\<lambda>e. event_status e = 0) e1"
    by (simp add: failfast_None)
  ultimately have "failfast r e1"
    by (cases e1 rule: rev_cases) (auto simp: failfast_def)
  with True show ?thesis by simp
next
  case False
  from assms(1) have "list_all (\<lambda>e. event_status e = 0) e1"
    by (simp add: failfast_None)
  with False assms(2) show ?thesis
    by (simp add: failfast_def butlast_append)
qed

lemma ff_andthen:
  assumes "events_spec failfast f" "events_spec failfast g"
  shows "events_spec failfast (andthen f g)"
proof (rule events_spec_andthen [OF assms])
  show "\<And>e evs. failfast (Some e) evs \<Longrightarrow> failfast (Some e) evs" .
  show "\<And>r e1 e2. failfast None e1 \<Longrightarrow> failfast r e2 \<Longrightarrow> failfast r (e1 @ e2)"
    by (rule failfast_append)
qed

lemma events_specI:
  assumes "\<And>w res w'. f w = (res, w') \<Longrightarrow>
     take (length (trace w)) (trace w') = trace w \<and> Q res (drop (length (trace w)) (trace w'))"
  shows "events_spec Q f"
  unfolding events_spec_def
proof (intro allI impI)
  fix w res w' assume "f w = (res, w')"
  from assms [OF this] have "trace w' = trace w @ drop (length (trace w)) (trace w')"
    "Q res (drop (length (trace w)) (trace w'))"
    by (metis append_take_drop_id, simp)
  then show "\<exists>evs. trace w' = trace w @ evs \<and> Q res evs" by blast
qed

lemma ff_subprocess_run: "events_spec failfast (subprocess_run h a cwd)"
proof (rule events_specI)
  fix w res w' assume "subprocess_run h a cwd w = (res, w')"
  then show "take (length (trace w)) (trace w') = trace w \<and>
     failfast res (drop (length (trace w)) (trace w'))"
    by (cases "fs w cwd"; cases "tool h a cwd (fs w)")
       (auto simp: subprocess_run_def emit_def failfast_def split: node.splits)
qed

lemma ff_raise: "called_process_error (Some e) = None \<Longrightarrow> events_spec failfast (raise e)"
  by (rule events_specI) (auto simp: raise_def failfast_def)

lemma ff_Pair: "events_spec failfast (Pair None)"
  by (rule events_specI) (auto simp: failfast_def)

lemma ff_if: "events_spec failfast f \<Longrightarrow> events_spec failfast g \<Longrightarrow>
  events_spec failfast (if b then f else g)"
  by simp

lemma ff_rmtree: "events_spec failfast (rmtree p)"
proof (rule events_specI)
  fix w res w' assume "rmtree p w = (res, w')"
  then show "take (length (trace w)) (trace w') = trace w \<and>
     failfast res (drop (length (trace w)) (trace w'))"
    by (cases "fs w p") (auto simp: rmtree_def emit_def failfast_def split: node.splits)
qed

lemma ff_mkdir_parents: "events_spec failfast (mkdir_parents b p)"
proof (rule events_specI)
  fix w res w' assume "mkdir_parents b p w = (res, w')"
  then show "take (length (trace w)) (trace w') = trace w \<and>
     failfast res (drop (length (trace w)) (trace w'))"
    by (cases "fs w p")
       (auto simp: mkdir_parents_def emit_def failfast_def split: node.splits if_splits)
qed

lemma ff_open_w: "events_spec failfast (open_w p)"
proof (rule events_specI)
  fix w res w' assume "open_w p w = (res, w')"
  then show "take (length (trace w)) (trace w') = trace w \<and>
     failfast res (drop (length (trace w)) (trace w'))"
    by (cases "fs w (butlast p)"; cases "fs w p")
       (auto simp: open_w_def emit_def failfast_def split: node.splits)
qed

lemma ff_file_write: "events_spec failfast (file_write p s)"
  by (rule events_specI) (auto simp: file_write_def emit_def failfast_def)

lemma events_spec_cond:
  assumes "events_spec Q f" "Q None []"
  shows "events_spec Q (\<lambda>w. if c w then f w else (None, w))"
  using assms unfolding events_spec_def
  by (auto split: if_splits)

lemma ff_run_with_jobs: "events_spec failfast (run_with_jobs h a cwd)"
  by (cases "os_cpu_count h")
     (simp_all add: run_with_jobs_def jobs_arg_def ff_raise ff_subprocess_run)

lemma ff_toolchain: "events_spec failfast (toolchain h bb u f r c od)"
  unfolding toolchain_def
  by (intro ff_andthen ff_if ff_subprocess_run ff_run_with_jobs ff_Pair)

lemma ff_prepare: "events_spec failfast (prepare_build_dir bb f)"
  unfolding prepare_build_dir_def
  by (intro ff_andthen events_spec_cond ff_rmtree ff_mkdir_parents) (simp_all add: failfast_def)

lemma ff_write_stamp: "events_spec failfast (write_stamp p s)"
  unfolding write_stamp_def by (intro ff_andthen ff_open_w ff_file_write)

lemma ff_rebuild: "events_spec failfast (rebuild h bb f r c od s)"
  unfolding rebuild_def
  by (simp add: uuidlib_for_def ff_andthen ff_raise ff_prepare ff_toolchain ff_write_stamp)

lemma git_status_eq:
  "git_status h w =
     (if fst (git_submodule_status h) = 0 then Inr (snd (git_submodule_status h))
      else Inl (CalledProcessError (fst (git_submodule_status h)) git_argv),
      emit (git_event h) w)"
  by (cases "git_submodule_status h") (simp add: git_status_def git_event_def)

lemma compile_postgres_rebuild:
  assumes "git_submodule_status h = (0, c # rest)" "c \<noteq> CHR ''-''"
    and "read_build_stamp (postgres_build_stamp bb) (fs w) = Inr b"
    and "s = c # takeWhile (\<lambda>x. x \<noteq> CHR '' '') rest"
  shows "compile_postgres h bb force fresh rcfg bc w =
     (if is_outdated s b \<or> force
      then rebuild h bb fresh rcfg bc (is_outdated s b) s (after_git h w)
      else (None, after_git h w))"
  using assms
  by (simp add: compile_postgres_def git_status_eq source_stamp_of_def after_git_def emit_def)

lemma trace_after_git: "trace (after_git h w) = trace w @ [git_event h, git_event h]"
  by (simp add: after_git_def emit_def)

lemma fs_after_git: "fs (after_git h w) = fs w"
  by (simp add: after_git_def emit_def)

text \<open>The runs that end before the rebuild decision.\<close>

lemma compile_postgres_cases:
  assumes "compile_postgres h bb force fresh rcfg bc w = (res, w')"
  obtains
    (git1) "fst (git_submodule_status h) \<noteq> 0" "w' = emit (git_event h) w"
      "res = Some (CalledProcessError (fst (git_submodule_status h)) git_argv)"
  | (empty) "fst (git_submodule_status h) = 0" "snd (git_submodule_status h) = []"
      "w' = emit (git_event h) w" "res = Some IndexError"
  | (uninit) rest where "git_submodule_status h = (0, CHR ''-'' # rest)"
      "w' = emit (Print not_initialized_message) (emit (git_event h) w)"
      "res = Some (SystemExit 1)"
  | (unreadable) c rest e where "git_submodule_status h = (0, c # rest)" "c \<noteq> CHR ''-''"
      "read_build_stamp (postgres_build_stamp bb) (fs w) = Inl e"
      "w' = after_git h w" "res = Some e"
  | (fresh) c rest b where "git_submodule_status h = (0, c # rest)" "c \<noteq> CHR ''-''"
      "read_build_stamp (postgres_build_stamp bb) (fs w) = Inr b"
      "\<not> (is_outdated (c # takeWhile (\<lambda>x. x \<noteq> CHR '' '') rest) b \<or> force)"
      "w' = after_git h w" "res = None"
  | (rebuild) c rest b where "git_submodule_status h = (0, c # rest)" "c \<noteq> CHR ''-''"
      "read_build_stamp (postgres_build_stamp bb) (fs w) = Inr b"
      "is_outdated (c # takeWhile (\<lambda>x. x \<noteq> CHR '' '') rest) b \<or> force"
      "rebuild h bb fresh rcfg bc (is_outdated (c # takeWhile (\<lambda>x. x \<noteq> CHR '' '') rest) b)
         (c # takeWhile (\<lambda>x. x \<noteq> CHR '' '') rest) (after_git h w) = (res, w')"
proof (cases "git_submodule_status h")
  case (Pair rc out)
  show ?thesis
  proof (cases "rc = 0")
    case False
    with Pair assms git1 show ?thesis
      by (simp add: compile_postgres_def git_status_eq)
  next
    case True
    note rc0 = this
    show ?thesis
    proof (cases out)
      case Nil
      with Pair rc0 assms empty show ?thesis
        by (simp add: compile_postgres_def git_status_eq)
    next
      case (Cons c rest)
      show ?thesis
      proof (cases "c = CHR ''-''")
        case True
        with Pair rc0 Cons assms uninit show ?thesis
          by (simp add: compile_postgres_def git_status_eq)
      next
        case False
        note cne = this
        show ?thesis
        proof (cases "read_build_stamp (postgres_build_stamp bb) (fs w)")
          case (Inl e)
          with Pair rc0 Cons cne assms unreadable [of c rest e] show ?thesis
            by (simp add: compile_postgres_def git_status_eq source_stamp_of_def
                after_git_def emit_def)
        next
          case (Inr b)
          from Pair rc0 Cons have g: "git_submodule_status h = (0, c # rest)" by simp
          from compile_postgres_rebuild [OF g cne Inr refl, of force fresh rcfg bc] assms
            fresh [OF g cne Inr] rebuild [OF g cne Inr]
          show ?thesis by (auto split: if_splits)
        qed
      qed
    qed
  qed
qed

lemma andthen_raise: "andthen (raise e) g = raise e"
  by (rule ext) (simp add: andthen_def raise_def)

lemma ran_andthen:
  assumes "events_spec (ran c1) f" "events_spec (ran c2) g"
  shows "events_spec (ran (c1 @ c2)) (andthen f g)"
proof (rule events_spec_andthen [OF assms])
  show "\<And>e evs. ran c1 (Some e) evs \<Longrightarrow> ran (c1 @ c2) (Some e) evs"
    by (simp add: ran_def)
  show "\<And>r e1 e2. ran c1 None e1 \<Longrightarrow> ran c2 r e2 \<Longrightarrow> ran (c1 @ c2) r (e1 @ e2)"
    by (simp add: ran_def)
qed

lemma ran_subprocess_run: "events_spec (ran [a]) (subprocess_run h a cwd)"
proof (rule events_specI)
  fix w res w' assume "subprocess_run h a cwd w = (res, w')"
  then show "take (length (trace w)) (trace w') = trace w \<and>
     ran [a] res (drop (length (trace w)) (trace w'))"
    by (cases "fs w cwd"; cases "tool h a cwd (fs w)")
       (auto simp: subprocess_run_def emit_def ran_def split: node.splits)
qed

lemma ran_raise: "events_spec (ran cs) (raise e)"
  by (rule events_specI) (auto simp: raise_def ran_def)

lemma ran_Pair: "events_spec (ran []) (Pair None)"
  by (rule events_specI) (auto simp: ran_def)

lemma ran_if:
  "events_spec (ran c1) f \<Longrightarrow> events_spec (ran c2) g \<Longrightarrow>
   events_spec (ran (if b then c1 else c2)) (if b then f else g)"
  by simp

lemma ran_rmtree: "events_spec (ran []) (rmtree p)"
proof (rule events_specI)
  fix w res w' assume "rmtree p w = (res, w')"
  then show "take (length (trace w)) (trace w') = trace w \<and>
     ran [] res (drop (length (trace w)) (trace w'))"
    by (cases "fs w p") (auto simp: rmtree_def emit_def ran_def split: node.splits)
qed

lemma ran_mkdir_parents: "events_spec (ran []) (mkdir_parents b p)"
proof (rule events_specI)
  fix w res w' assume "mkdir_parents b p w = (res, w')"
  then show "take (length (trace w)) (trace w') = trace w \<and>
     ran [] res (drop (length (trace w)) (trace w'))"
    by (cases "fs w p")
       (auto simp: mkdir_parents_def emit_def ran_def split: node.splits if_splits)
qed

lemma ran_open_w: "events_spec (ran []) (open_w p)"
proof (rule events_specI)
  fix w res w' assume "open_w p w = (res, w')"
  then show "take (length (trace w)) (trace w') = trace w \<and>
     ran [] res (drop (length (trace w)) (trace w'))"
    by (cases "fs w (butlast p)"; cases "fs w p")
       (auto simp: open_w_def emit_def ran_def split: node.splits)
qed

lemma ran_file_write: "events_spec (ran []) (file_write p s)"
  by (rule events_specI) (auto simp: file_write_def emit_def ran_def)

lemma ran_prepare: "events_spec (ran []) (prepare_build_dir bb f)"
proof -
  have "events_spec (ran ([] @ [])) (prepare_build_dir bb f)"
    unfolding prepare_build_dir_def
    by (intro ran_andthen events_spec_cond ran_rmtree ran_mkdir_parents) (simp_all add: ran_def)
  then show ?thesis by simp
qed

lemma ran_write_stamp: "events_spec (ran []) (write_stamp p s)"
proof -
  have "events_spec (ran ([] @ [])) (write_stamp p s)"
    unfolding write_stamp_def by (intro ran_andthen ran_open_w ran_file_write)
  then show ?thesis by simp
qed

lemma ran_toolchain:
  "events_spec (ran (toolchain_commands h bb u f r c od)) (toolchain h bb u f r c od)"
proof (cases "jobs_arg h")
  case (Inl e)
  have "events_spec (ran ((if r \<or> f \<or> od then [configure_argv h bb u] else []) @ []))
     (andthen (if r \<or> f \<or> od
        then subprocess_run h (configure_argv h bb u) (build_dir bb) else Pair None)
        (raise e))"
    by (intro ran_andthen ran_if ran_subprocess_run ran_Pair ran_raise)
  then show ?thesis
    unfolding toolchain_def toolchain_commands_def run_with_jobs_def Inl sum.case andthen_raise .
next
  case (Inr j)
  have "events_spec
     (ran ((if r \<or> f \<or> od then [configure_argv h bb u] else []) @
           [make_argv j] @
           (if c \<or> f \<or> od then [make_contrib_argv j] else []) @
           [make_install_argv] @
           (if c \<or> f \<or> od then [make_contrib_install_argv] else [])))
     (andthen (if r \<or> f \<or> od
        then subprocess_run h (configure_argv h bb u) (build_dir bb) else Pair None)
      (andthen (subprocess_run h (make_argv j) (build_dir bb))
      (andthen (if c \<or> f \<or> od
         then subprocess_run h (make_contrib_argv j) (build_dir bb) else Pair None)
      (andthen (subprocess_run h make_install_argv (build_dir bb))
         (if c \<or> f \<or> od
          then subprocess_run h make_contrib_install_argv (build_dir bb) else Pair None)))))"
    by (intro ran_andthen ran_if ran_subprocess_run ran_Pair)
  then show ?thesis
    unfolding toolchain_def toolchain_commands_def run_with_jobs_def Inr sum.case .
qed

lemma ran_rebuild:
  "events_spec (ran (toolchain_commands h bb ''e2fs'' f r c od)) (rebuild h bb f r c od s)"
proof (cases "uuidlib_for (platform_system h)")
  case (Inl e)
  then show ?thesis by (simp add: rebuild_def ran_raise)
next
  case (Inr u)
  then have u: "u = ''e2fs''" by (auto simp: uuidlib_for_def split: if_splits)
  have "events_spec (ran ([] @ toolchain_commands h bb u f r c od @ []))
     (andthen (prepare_build_dir bb f)
       (andthen (toolchain h bb u f r c od) (write_stamp (postgres_build_stamp bb) s)))"
    by (intro ran_andthen ran_prepare ran_toolchain ran_write_stamp)
  with Inr u show ?thesis by (simp add: rebuild_def)
qed

lemma new_events_after_git:
  "trace w' = trace (after_git h w) @ evs \<Longrightarrow>
   new_events w w' = [git_event h, git_event h] @ evs \<and> trace w' = trace w @ new_events w w'"
  by (simp add: new_events_def trace_after_git)

lemma stamp_outdated_eq:
  "git_submodule_status h = (0, c # rest) \<Longrightarrow>
   read_build_stamp (postgres_build_stamp bb) f = Inr b \<Longrightarrow>
   stamp_outdated h bb f = is_outdated (c # takeWhile (\<lambda>x. x \<noteq> CHR '' '') rest) b"
  by (simp add: stamp_outdated_def source_stamp_of_def)

lemma read_build_stamp_error:
  "read_build_stamp p f = Inl e \<Longrightarrow> e = IsADirectoryError p"
  by (auto simp: read_build_stamp_def read_text_def path_exists_def
      split: if_splits option.splits node.splits)

lemma failfast_git2:
  "fst (git_submodule_status h) = 0 \<Longrightarrow> failfast r evs \<Longrightarrow>
   failfast r ([git_event h, git_event h] @ evs)"
  by (rule failfast_append) (simp_all add: failfast_None git_event_def)

lemma ran_git2:
  "ran cs r evs \<Longrightarrow> ran (git_argv # git_argv # cs) r ([git_event h, git_event h] @ evs)"
  by (simp add: ran_def git_event_def)

lemma compile_postgres_events:
  assumes "compile_postgres h bb force fresh rcfg bc w = (res, w')"
  shows "trace w' = trace w @ new_events w w' \<and>
     failfast res (new_events w w') \<and>
     prefix (map event_argv (filter is_subprocess (new_events w w')))
       (git_argv # git_argv #
          toolchain_commands h bb ''e2fs'' fresh rcfg bc (stamp_outdated h bb (fs w))) \<and>
     (res = None \<longrightarrow>
        map event_argv (filter is_subprocess (new_events w w')) =
          git_argv # git_argv #
            (if stamp_outdated h bb (fs w) \<or> force
             then toolchain_commands h bb ''e2fs'' fresh rcfg bc (stamp_outdated h bb (fs w))
             else []))"
  using assms
proof (cases rule: compile_postgres_cases)
  case git1
  then show ?thesis
    by (simp add: new_events_def emit_def failfast_def git_event_def)
next
  case empty
  then show ?thesis
    by (simp add: new_events_def emit_def failfast_def git_event_def)
next
  case (uninit rest)
  then show ?thesis
    by (simp add: new_events_def emit_def failfast_def git_event_def)
next
  case (unreadable c rest e)
  from unreadable(3) have "e = IsADirectoryError (postgres_build_stamp bb)"
    by (rule read_build_stamp_error)
  with unreadable show ?thesis
    by (simp add: new_events_def after_git_def emit_def failfast_def git_event_def)
next
  case (fresh c rest b)
  from fresh(1,3) have so: "stamp_outdated h bb (fs w) =
      is_outdated (c # takeWhile (\<lambda>x. x \<noteq> CHR '' '') rest) b"
    by (rule stamp_outdated_eq)
  from fresh so show ?thesis
    by (simp add: new_events_def after_git_def emit_def failfast_def git_event_def)
next
  case (rebuild c rest b)
  let ?s = "c # takeWhile (\<lambda>x. x \<noteq> CHR '' '') rest"
  from rebuild(1,3) have so: "stamp_outdated h bb (fs w) = is_outdated ?s b"
    by (rule stamp_outdated_eq)
  let ?evs = "new_events (after_git h w) w'"
  from events_specD [OF ff_rebuild rebuild(5)]
  have t: "trace w' = trace (after_git h w) @ ?evs" and ff: "failfast res ?evs" by simp_all
  from events_specD [OF ran_rebuild rebuild(5)]
  have rn: "ran (toolchain_commands h bb ''e2fs'' fresh rcfg bc (is_outdated ?s b)) res ?evs"
    by simp
  from new_events_after_git [OF t]
  have ne: "new_events w w' = [git_event h, git_event h] @ ?evs"
    and tr: "trace w' = trace w @ new_events w w'" by simp_all
  from rebuild(1) have "fst (git_submodule_status h) = 0" by simp
  from failfast_git2 [OF this ff] have "failfast res (new_events w w')" by (simp add: ne)
  moreover from ran_git2 [OF rn, of h]
  have "ran (git_argv # git_argv #
      toolchain_commands h bb ''e2fs'' fresh rcfg bc (is_outdated ?s b)) res (new_events w w')"
    by (simp add: ne)
  ultimately show ?thesis using tr so rebuild(4)
    by (simp add: ran_def)
qed

lemma compile_postgres_decided:
  assumes "git_submodule_status h = (0, out)" "source_stamp_of out = Inr s"
    and "hd out \<noteq> CHR ''-''"
    and "read_build_stamp (postgres_build_stamp bb) (fs w) = Inr b"
  shows "compile_postgres h bb force fresh rcfg bc w =
     (if is_outdated s b \<or> force
      then rebuild h bb fresh rcfg bc (is_outdated s b) s (after_git h w)
      else (None, after_git h w))"
proof (cases out)
  case Nil
  with assms(2) show ?thesis by (simp add: source_stamp_of_def)
next
  case (Cons c rest)
  with assms have "git_submodule_status h = (0, c # rest)" "c \<noteq> CHR ''-''"
    "s = c # takeWhile (\<lambda>x. x \<noteq> CHR '' '') rest"
    by (auto simp: source_stamp_of_def)
  from compile_postgres_rebuild [OF this(1,2) assms(4) this(3)] show ?thesis .
qed

lemma after_git_eq:
  "fst (git_submodule_status h) = 0 \<Longrightarrow>
   after_git h w = w\<lparr>trace := trace w @ [Subprocess git_argv None 0, Subprocess git_argv None 0]\<rparr>"
  by (simp add: after_git_def git_event_def emit_def)

lemma event_argv_not_subprocess: "\<not> is_subprocess e \<Longrightarrow> event_argv e = []"
  by (cases e) simp_all

lemma compile_postgres_argvs:
  assumes "compile_postgres h bb force fresh rcfg bc w = (res, w')"
    and "e \<in> set (new_events w w')"
  shows "event_argv e \<in>
     set ([] # git_argv #
          toolchain_commands h bb ''e2fs'' fresh rcfg bc (stamp_outdated h bb (fs w)))"
proof (cases "is_subprocess e")
  case False
  then show ?thesis by (simp add: event_argv_not_subprocess)
next
  case True
  with assms(2) have "event_argv e \<in> set (map event_argv (filter is_subprocess (new_events w w')))"
    by auto
  moreover from compile_postgres_events [OF assms(1)]
  have "prefix (map event_argv (filter is_subprocess (new_events w w')))
       (git_argv # git_argv #
          toolchain_commands h bb ''e2fs'' fresh rcfg bc (stamp_outdated h bb (fs w)))"
    by simp
  ultimately have "event_argv e \<in> set (git_argv # git_argv #
          toolchain_commands h bb ''e2fs'' fresh rcfg bc (stamp_outdated h bb (fs w)))"
    using set_mono_prefix by blast
  then show ?thesis by auto
qed

lemma toolchain_commands_subset:
  assumes "jobs_arg h = Inr j" "x \<in> set (toolchain_commands h bb u f r c od)"
  shows "x = configure_argv h bb u \<or> x = make_argv j \<or> x = make_contrib_argv j \<or>
         x = make_install_argv \<or> x = make_contrib_install_argv"
  using assms by (auto simp: toolchain_commands_def split: if_splits)

lemma path_str_head: "\<exists>t. path_str p = CHR ''/'' # t"
  by (cases p) (simp_all add: path_str_def)

lemma j_argument_configure: "j_argument (configure_argv h bb ''e2fs'') = None"
proof -
  obtain t where "path_str (postgres_src h @ [''configure'']) = CHR ''/'' # t"
    using path_str_head by blast
  then show ?thesis by (simp add: configure_argv_def)
qed

lemma hd_configure: "take 1 (configure_argv h bb u) \<noteq> [''make'']"
proof -
  obtain t where "path_str (postgres_src h @ [''configure'']) = CHR ''/'' # t"
    using path_str_head by blast
  then show ?thesis by (simp add: configure_argv_def)
qed

lemma not_is_file_cases: "\<not> is_file x \<Longrightarrow> x = None \<or> x = Some Dir"
  by (auto simp: is_file_def split: option.splits node.splits)

lemma build_tree_okD: "build_tree_ok f bb \<Longrightarrow> prefix q (build_dir bb) \<Longrightarrow> \<not> is_file (f q)"
  by (simp add: build_tree_ok_def list_all_iff in_set_prefixes)

lemma mkdir_build_dir:
  assumes "\<And>q. prefix q p \<Longrightarrow> \<not> is_file (fs w q)" "fs w p = None"
  shows "\<exists>w2. mkdir_parents b p w = (None, w2) \<and> fs w2 p = Some Dir \<and>
     trace w2 = trace w @ [Mkdir p] \<and> (\<forall>q. \<not> prefix q p \<longrightarrow> fs w2 q = fs w q)"
proof -
  have pq: "prefix q p" if "prefix q (butlast p)" for q
    using that prefixeq_butlast [of p] by (rule prefix_order.trans)
  have "\<not> list_ex (\<lambda>q. is_file (fs w q)) (prefixes (butlast p))"
    using assms(1) pq by (auto simp: list_ex_iff in_set_prefixes)
  with assms(2) show ?thesis
    by (simp add: mkdir_parents_def emit_def)
qed

lemma prepare_build_dir_ok:
  assumes "build_tree_ok (fs w) bb"
  shows "\<exists>w2. prepare_build_dir bb fresh w = (None, w2) \<and> fs w2 (build_dir bb) = Some Dir \<and>
     trace w2 = trace w @ new_events w w2 \<and>
     list_all (\<lambda>e. \<not> is_subprocess e) (new_events w w2)"
proof -
  have pb: "prefix (postgres_build bb) (build_dir bb)" by (simp add: build_dir_def)
  show ?thesis
  proof (cases "fresh \<and> path_exists (fs w) (postgres_build bb)")
    case True
    with build_tree_okD [OF assms pb] have d: "fs w (postgres_build bb) = Some Dir"
      by (auto simp: path_exists_def dest: not_is_file_cases)
    let ?w1 = "emit (Rmtree (postgres_build bb))
       (w\<lparr>fs := (\<lambda>q. if prefix (postgres_build bb) q then None else fs w q)\<rparr>)"
    from d have r: "rmtree (postgres_build bb) w = (None, ?w1)" by (simp add: rmtree_def)
    have n: "fs ?w1 (build_dir bb) = None" using pb by (simp add: emit_def)
    have "\<And>q. prefix q (build_dir bb) \<Longrightarrow> \<not> is_file (fs ?w1 q)"
      using build_tree_okD [OF assms] by (simp add: emit_def is_file_def)
    from mkdir_build_dir [OF this n, of False] obtain w2 where
      m: "mkdir_parents False (build_dir bb) ?w1 = (None, w2)" "fs w2 (build_dir bb) = Some Dir"
        "trace w2 = trace ?w1 @ [Mkdir (build_dir bb)]" by blast
    from True r n m show ?thesis
      by (simp add: prepare_build_dir_def andthen_def path_exists_def new_events_def emit_def)
  next
    case False
    show ?thesis
    proof (cases "fs w (build_dir bb)")
      case None
      from mkdir_build_dir [OF build_tree_okD [OF assms] None, of False] obtain w2 where
        m: "mkdir_parents False (build_dir bb) w = (None, w2)" "fs w2 (build_dir bb) = Some Dir"
          "trace w2 = trace w @ [Mkdir (build_dir bb)]" by blast
      from False None m show ?thesis
        by (auto simp: prepare_build_dir_def andthen_def path_exists_def new_events_def)
    next
      case (Some x)
      with build_tree_okD [OF assms, of "build_dir bb"] have "fs w (build_dir bb) = Some Dir"
        by (auto dest: not_is_file_cases)
      with False show ?thesis
        by (auto simp: prepare_build_dir_def andthen_def path_exists_def new_events_def)
    qed
  qed
qed

lemma stamp_outdated_decided:
  "git_submodule_status h = (0, out) \<Longrightarrow> source_stamp_of out = Inr s \<Longrightarrow>
   read_build_stamp (postgres_build_stamp bb) f = Inr b \<Longrightarrow>
   stamp_outdated h bb f = is_outdated s b"
  by (simp add: stamp_outdated_def)

lemma toolchain_with_configure:
  "r \<or> f \<or> od \<Longrightarrow>
   toolchain h bb u f r c od =
     andthen (subprocess_run h (configure_argv h bb u) (build_dir bb))
       (toolchain h bb u False False (c \<or> f \<or> od) False)"
  by (simp add: toolchain_def andthen_Pair_left)

lemma subprocess_run_in_dir:
  assumes "fs w cwd = Some Dir"
  shows "\<exists>r1 w1 rc. subprocess_run h a cwd w = (r1, w1) \<and>
     trace w1 = trace w @ [Subprocess a (Some cwd) rc]"
  using assms
  by (cases "tool h a cwd (fs w)") (simp add: subprocess_run_def emit_def)

lemma configure_not_make:
  "configure_argv h bb u \<noteq> [] \<and> configure_argv h bb u \<noteq> git_argv \<and>
   configure_argv h bb u \<noteq> make_argv j \<and> configure_argv h bb u \<noteq> make_contrib_argv j \<and>
   configure_argv h bb u \<noteq> make_install_argv \<and>
   configure_argv h bb u \<noteq> make_contrib_install_argv"
proof -
  obtain t where "path_str (postgres_src h @ [''configure'']) = CHR ''/'' # t"
    using path_str_head by blast
  then show ?thesis
    by (simp add: configure_argv_def git_argv_def make_argv_def make_contrib_argv_def
        make_install_argv_def make_contrib_install_argv_def)
qed

lemma configure_in_commands:
  "configure_argv h bb u \<in> set (toolchain_commands h bb u f r c od) = (r \<or> f \<or> od)"
  using configure_not_make [of h bb u]
  by (cases "jobs_arg h") (auto simp: toolchain_commands_def)

lemma rebuild_runs_configure:
  assumes "r \<or> f \<or> od" "platform_system h = ''Linux'' \<or> platform_system h = ''Darwin''"
    and "build_tree_ok (fs w) bb"
    and "rebuild h bb f r c od s w = (res, w')"
  shows "\<exists>pre post rc. trace w' =
     trace w @ pre @ Subprocess (configure_argv h bb ''e2fs'') (Some (build_dir bb)) rc # post"
proof -
  let ?K = "andthen (toolchain h bb ''e2fs'' False False (c \<or> f \<or> od) False)
      (write_stamp (postgres_build_stamp bb) s)"
  from assms(2) have u: "uuidlib_for (platform_system h) = Inr ''e2fs''"
    by (auto simp: uuidlib_for_def)
  have reb: "rebuild h bb f r c od s =
      andthen (prepare_build_dir bb f)
        (andthen (subprocess_run h (configure_argv h bb ''e2fs'') (build_dir bb)) ?K)"
    by (simp add: rebuild_def u toolchain_with_configure [OF assms(1)] andthen_assoc)
  from prepare_build_dir_ok [OF assms(3), of f] obtain w2 where
    p: "prepare_build_dir bb f w = (None, w2)" "fs w2 (build_dir bb) = Some Dir"
      "trace w2 = trace w @ new_events w w2" by blast
  from subprocess_run_in_dir [OF p(2), of h "configure_argv h bb ''e2fs''"]
  obtain r1 w3 rc where
    c: "subprocess_run h (configure_argv h bb ''e2fs'') (build_dir bb) w2 = (r1, w3)"
      "trace w3 = trace w2 @
         [Subprocess (configure_argv h bb ''e2fs'') (Some (build_dir bb)) rc]"
    by blast
  have K: "events_spec failfast ?K" by (intro ff_andthen ff_toolchain ff_write_stamp)
  have "\<exists>post. trace w' = trace w3 @ post"
  proof (cases r1)
    case None
    with assms(4) p(1) c(1) have "?K w3 = (res, w')"
      by (simp add: reb andthen_def)
    from events_specD [OF K this] show ?thesis by blast
  next
    case (Some e)
    with assms(4) p(1) c(1) have "w' = w3" by (simp add: reb andthen_def)
    then show ?thesis by simp
  qed
  then obtain post where "trace w' = trace w3 @ post" ..
  with c(2) p(3) have "trace w' = trace w @ new_events w w2 @
      Subprocess (configure_argv h bb ''e2fs'') (Some (build_dir bb)) rc # post" by simp
  then show ?thesis by blast
qed

lemma keepsD: "keeps p f \<Longrightarrow> f w = (res, w') \<Longrightarrow> fs w' p = fs w p"
  unfolding keeps_def by blast

lemma keeps_andthen: "keeps p f \<Longrightarrow> keeps p g \<Longrightarrow> keeps p (andthen f g)"
  unfolding keeps_def
  by (auto simp: andthen_def split: prod.splits option.splits)

lemma keeps_Pair: "keeps p (Pair None)"
  by (simp add: keeps_def)

lemma keeps_raise: "keeps p (raise e)"
  by (simp add: keeps_def raise_def)

lemma keeps_if: "keeps p f \<Longrightarrow> keeps p g \<Longrightarrow> keeps p (if b then f else g)"
  by simp

lemma keeps_subprocess_run: "tool_keeps h p \<Longrightarrow> keeps p (subprocess_run h a cwd)"
  unfolding keeps_def tool_keeps_def
proof (intro allI impI)
  fix w res w'
  assume k: "\<forall>a c f. snd (tool h a c f) p = f p" and r: "subprocess_run h a cwd w = (res, w')"
  from k have "snd (tool h a cwd (fs w)) p = fs w p" by blast
  with r show "fs w' p = fs w p"
    by (cases "fs w cwd"; cases "tool h a cwd (fs w)")
       (auto simp: subprocess_run_def emit_def split: node.splits)
qed

lemma keeps_run_with_jobs: "tool_keeps h p \<Longrightarrow> keeps p (run_with_jobs h a cwd)"
  by (cases "jobs_arg h") (simp_all add: run_with_jobs_def keeps_raise keeps_subprocess_run)

lemma keeps_toolchain: "tool_keeps h p \<Longrightarrow> keeps p (toolchain h bb u f r c od)"
  unfolding toolchain_def
  by (intro keeps_andthen keeps_if keeps_subprocess_run keeps_run_with_jobs keeps_Pair)

lemma filter_not_write: "filter is_write evs = [] \<Longrightarrow> filter (\<lambda>e. \<not> is_write e) evs = evs"
  by (induction evs) (auto split: if_splits)

lemma nw_andthen:
  assumes "events_spec no_write f" "events_spec no_write g"
  shows "events_spec no_write (andthen f g)"
  by (rule events_spec_andthen [OF assms]) (simp_all add: no_write_def)

lemma nw_then_writes:
  assumes "events_spec no_write f" "events_spec (writes_last p s) g"
  shows "events_spec (writes_last p s) (andthen f g)"
proof (rule events_spec_andthen [OF assms])
  show "\<And>e evs. no_write (Some e) evs \<Longrightarrow> writes_last p s (Some e) evs"
    by (simp add: no_write_def writes_last_def)
  show "\<And>r e1 e2. no_write None e1 \<Longrightarrow> writes_last p s r e2 \<Longrightarrow> writes_last p s r (e1 @ e2)"
    by (auto simp: no_write_def writes_last_def filter_not_write)
qed

lemma nw_subprocess_run: "events_spec no_write (subprocess_run h a cwd)"
proof (rule events_specI)
  fix w res w' assume "subprocess_run h a cwd w = (res, w')"
  then show "take (length (trace w)) (trace w') = trace w \<and>
     no_write res (drop (length (trace w)) (trace w'))"
    by (cases "fs w cwd"; cases "tool h a cwd (fs w)")
       (auto simp: subprocess_run_def emit_def no_write_def split: node.splits)
qed

lemma nw_raise: "events_spec no_write (raise e)"
  by (rule events_specI) (auto simp: raise_def no_write_def)

lemma nw_Pair: "events_spec no_write (Pair None)"
  by (rule events_specI) (auto simp: no_write_def)

lemma nw_if: "events_spec no_write f \<Longrightarrow> events_spec no_write g \<Longrightarrow>
  events_spec no_write (if b then f else g)"
  by simp

lemma nw_rmtree: "events_spec no_write (rmtree p)"
proof (rule events_specI)
  fix w res w' assume "rmtree p w = (res, w')"
  then show "take (length (trace w)) (trace w') = trace w \<and>
     no_write res (drop (length (trace w)) (trace w'))"
    by (cases "fs w p") (auto simp: rmtree_def emit_def no_write_def split: node.splits)
qed

lemma nw_mkdir_parents: "events_spec no_write (mkdir_parents b p)"
proof (rule events_specI)
  fix w res w' assume "mkdir_parents b p w = (res, w')"
  then show "take (length (trace w)) (trace w') = trace w \<and>
     no_write res (drop (length (trace w)) (trace w'))"
    by (cases "fs w p")
       (auto simp: mkdir_parents_def emit_def no_write_def split: node.splits if_splits)
qed

lemma nw_run_with_jobs: "events_spec no_write (run_with_jobs h a cwd)"
  by (cases "jobs_arg h") (simp_all add: run_with_jobs_def nw_raise nw_subprocess_run)

lemma nw_toolchain: "events_spec no_write (toolchain h bb u f r c od)"
  unfolding toolchain_def
  by (intro nw_andthen nw_if nw_subprocess_run nw_run_with_jobs nw_Pair)

lemma nw_prepare: "events_spec no_write (prepare_build_dir bb f)"
  unfolding prepare_build_dir_def
  by (intro nw_andthen events_spec_cond nw_rmtree nw_mkdir_parents) (simp_all add: no_write_def)

text \<open>The stamp write, step by step.\<close>

lemma write_stamp_cases:
  assumes "write_stamp p s w = (res, w')"
  shows "(res \<noteq> None \<and> w' = w \<and> fst (open_w p w) = res) \<or>
     (res = None \<and> open_w p w = (None, w\<lparr>fs := (fs w)(p \<mapsto> File []), trace := trace w @ [OpenW p]\<rparr>) \<and>
      w' = w\<lparr>fs := (fs w)(p \<mapsto> File s), trace := trace w @ [OpenW p, WriteText p s]\<rparr>)"
  using assms
  by (cases "fs w (butlast p)"; cases "fs w p")
     (auto simp: write_stamp_def andthen_def open_w_def file_write_def emit_def
       split: node.splits)

lemma wl_write_stamp: "events_spec (writes_last p s) (write_stamp p s)"
proof (rule events_specI)
  fix w res w' assume "write_stamp p s w = (res, w')"
  from write_stamp_cases [OF this]
  show "take (length (trace w)) (trace w') = trace w \<and>
     writes_last p s res (drop (length (trace w)) (trace w'))"
    by (auto simp: writes_last_def)
qed

lemma wl_rebuild:
  "events_spec (writes_last (postgres_build_stamp bb) s) (rebuild h bb f r c od s)"
proof (cases "uuidlib_for (platform_system h)")
  case (Inl e)
  have "events_spec (writes_last (postgres_build_stamp bb) s) (raise e)"
    by (rule events_specI) (auto simp: raise_def writes_last_def)
  with Inl show ?thesis by (simp add: rebuild_def)
next
  case (Inr u)
  then show ?thesis
    by (simp add: rebuild_def nw_then_writes nw_prepare nw_toolchain wl_write_stamp)
qed

lemma stamp_not_under_build_dir:
  "\<not> prefix (postgres_build_stamp bb) (build_dir bb)"
  by (simp add: postgres_build_stamp_def build_dir_def)

lemma stamp_under_postgres_build: "prefix (postgres_build bb) (postgres_build_stamp bb)"
  by (simp add: postgres_build_stamp_def)

lemma rmtree_cases:
  assumes "rmtree p w = (res, w')"
  shows "(res \<noteq> None \<and> w' = w \<and> fs w p \<noteq> Some Dir \<and> called_process_error res = None) \<or>
     (res = None \<and> fs w p = Some Dir \<and>
      w' = w\<lparr>fs := (\<lambda>q. if prefix p q then None else fs w q), trace := trace w @ [Rmtree p]\<rparr>)"
  using assms
  by (cases "fs w p") (auto simp: rmtree_def emit_def split: node.splits)

lemma mkdir_parents_cases:
  assumes "mkdir_parents b p w = (res, w')"
  shows "(res \<noteq> None \<and> w' = w \<and> called_process_error res = None) \<or>
     (res = None \<and> (\<forall>q. \<not> prefix q p \<longrightarrow> fs w' q = fs w q))"
  using assms
  by (cases "fs w p")
     (auto simp: mkdir_parents_def emit_def split: node.splits if_splits)

lemma prepare_stamp:
  assumes "prepare_build_dir bb f w = (res, w2)"
  shows "fs w2 (postgres_build_stamp bb) =
     (if f \<and> fs w (postgres_build bb) = Some Dir then None else fs w (postgres_build_stamp bb)) \<and>
     called_process_error res = None"
proof -
  let ?first = "\<lambda>w. if f \<and> path_exists (fs w) (postgres_build bb)
            then rmtree (postgres_build bb) w else (None, w)"
  let ?second = "\<lambda>w. if \<not> path_exists (fs w) (build_dir bb)
            then mkdir_parents False (build_dir bb) w else (None, w)"
  let ?goal = "\<lambda>w1. (if f \<and> fs w (postgres_build bb) = Some Dir then None
      else fs w (postgres_build_stamp bb))"
  obtain r1 w1 where f1: "?first w = (r1, w1)" by (cases "?first w")
  have s1: "fs w1 (postgres_build_stamp bb) = ?goal w1 \<and> called_process_error r1 = None"
  proof (cases "f \<and> path_exists (fs w) (postgres_build bb)")
    case True
    with f1 have "rmtree (postgres_build bb) w = (r1, w1)" by simp
    from rmtree_cases [OF this] True show ?thesis
      by (auto simp: stamp_under_postgres_build)
  next
    case False
    with f1 show ?thesis by (auto simp: path_exists_def)
  qed
  show ?thesis
  proof (cases r1)
    case (Some e)
    with assms f1 have "w2 = w1" "res = r1"
      by (simp_all add: prepare_build_dir_def andthen_def)
    with s1 show ?thesis by simp
  next
    case None
    with assms f1 have f2: "?second w1 = (res, w2)"
      by (simp add: prepare_build_dir_def andthen_def)
    have "fs w2 (postgres_build_stamp bb) = fs w1 (postgres_build_stamp bb) \<and>
        called_process_error res = None"
    proof (cases "\<not> path_exists (fs w1) (build_dir bb)")
      case True
      with f2 have "mkdir_parents False (build_dir bb) w1 = (res, w2)" by simp
      from mkdir_parents_cases [OF this] stamp_not_under_build_dir [of bb]
      show ?thesis by auto
    next
      case False
      with f2 show ?thesis by auto
    qed
    with s1 show ?thesis by simp
  qed
qed

lemma open_w_error: "open_w p w = (Some e, w') \<Longrightarrow> called_process_error (Some e) = None"
  by (cases "fs w (butlast p)"; cases "fs w p")
     (auto simp: open_w_def split: node.splits)

lemma toolchain_error_stamp:
  assumes "toolchain h bb u f r c od w = (res, w')"
    and "tool_keeps h (postgres_build_stamp bb)"
  shows "fs w' (postgres_build_stamp bb) = fs w (postgres_build_stamp bb)"
  using keepsD [OF keeps_toolchain [OF assms(2)] assms(1)] .

text \<open>A rebuild that ends in an exception leaves the stamp file deleted or as it was.\<close>

lemma rebuild_failed_stamp:
  assumes "rebuild h bb f r c od s w = (res, w')" "res \<noteq> None"
    and "uuidlib_for (platform_system h) = Inr u"
    and "tool_keeps h (postgres_build_stamp bb)"
  shows "fs w' (postgres_build_stamp bb) =
     (if f \<and> fs w (postgres_build bb) = Some Dir then None else fs w (postgres_build_stamp bb))"
proof -
  let ?p = "postgres_build_stamp bb"
  from assms(1,3) have run: "andthen (prepare_build_dir bb f)
      (andthen (toolchain h bb u f r c od) (write_stamp ?p s)) w = (res, w')"
    by (simp add: rebuild_def)
  then show ?thesis
  proof (cases rule: andthen_cases)
    case (first e)
    from prepare_stamp [OF first(1)] show ?thesis by simp
  next
    case (second w2)
    note ps = prepare_stamp [OF second(1)]
    from second(2) show ?thesis
    proof (cases rule: andthen_cases)
      case (first e)
      from toolchain_error_stamp [OF first(1) assms(4)] ps show ?thesis by simp
    next
      case (second w3)
      from write_stamp_cases [OF second(2)] assms(2) have "w' = w3" by auto
      with toolchain_error_stamp [OF second(1) assms(4)] ps show ?thesis by simp
    qed
  qed
qed

lemma rebuild_unsupported:
  "uuidlib_for (platform_system h) = Inl e \<Longrightarrow>
   rebuild h bb f r c od s w = (Some e, w) \<and> called_process_error (Some e) = None"
  by (auto simp: rebuild_def raise_def uuidlib_for_def split: if_splits)

text \<open>A rebuild that succeeds has written the stamp.\<close>

lemma rebuild_success_stamp:
  assumes "rebuild h bb f r c od s w = (None, w')"
  shows "fs w' (postgres_build_stamp bb) = Some (File s)"
proof (cases "uuidlib_for (platform_system h)")
  case (Inl e)
  with assms rebuild_unsupported [OF Inl, of bb f r c od s w] show ?thesis by simp
next
  case (Inr u)
  let ?p = "postgres_build_stamp bb"
  from assms Inr have run: "andthen (prepare_build_dir bb f)
      (andthen (toolchain h bb u f r c od) (write_stamp ?p s)) w = (None, w')"
    by (simp add: rebuild_def)
  then show ?thesis
  proof (cases rule: andthen_cases)
    case (second w2)
    from second(2) show ?thesis
    proof (cases rule: andthen_cases)
      case (second w3)
      from write_stamp_cases [OF second(2)] show ?thesis by auto
    qed simp
  qed simp
qed

lemma read_build_stamp_None: "f p = None \<Longrightarrow> read_build_stamp p f = Inr None"
  by (simp add: read_build_stamp_def path_exists_def)

lemma read_build_stamp_cong: "f p = g p \<Longrightarrow> read_build_stamp p f = read_build_stamp p g"
  by (simp add: read_build_stamp_def path_exists_def read_text_def)

lemma stamp_exists_not_outdated:
  "read_build_stamp p f = Inr b \<Longrightarrow> \<not> is_outdated s b \<Longrightarrow> f p \<noteq> None"
  by (auto simp: read_build_stamp_def path_exists_def is_outdated_def split: if_splits)

text \<open>After a failed rebuild the stamp is still outdated, when it was or when the
  directory was rebuilt from scratch.\<close>

lemma failed_rebuild_stays_outdated:
  assumes "rebuild h bb f r c od s w = (res, w')" "res \<noteq> None"
    and "tool_keeps h (postgres_build_stamp bb)"
    and "read_build_stamp (postgres_build_stamp bb) (fs w) = Inr b"
    and "fs w (postgres_build_stamp bb) \<noteq> None \<longrightarrow> fs w (postgres_build bb) = Some Dir"
    and "is_outdated s b \<or> (f \<and> called_process_error res \<noteq> None)"
  shows "\<exists>b'. read_build_stamp (postgres_build_stamp bb) (fs w') = Inr b' \<and> is_outdated s b'"
proof (cases "uuidlib_for (platform_system h)")
  case (Inl e)
  from rebuild_unsupported [OF Inl, of bb f r c od s w] assms(1)
  have "w' = w" "called_process_error res = None" by auto
  with assms(4,6) show ?thesis by auto
next
  case (Inr u)
  let ?p = "postgres_build_stamp bb"
  note st = rebuild_failed_stamp [OF assms(1,2) Inr assms(3)]
  show ?thesis
  proof (cases "fs w' ?p = None")
    case True
    then have "read_build_stamp ?p (fs w') = Inr None" by (rule read_build_stamp_None)
    then show ?thesis by (simp add: is_outdated_def)
  next
    case False
    with st have same: "fs w' ?p = fs w ?p" and nf: "\<not> (f \<and> fs w (postgres_build bb) = Some Dir)"
      by (auto split: if_splits)
    from same have rd: "read_build_stamp ?p (fs w') = Inr b"
      using assms(4) read_build_stamp_cong [of "fs w'" ?p "fs w"] by simp
    from False same assms(5) have "fs w (postgres_build bb) = Some Dir" by simp
    with nf have "\<not> f" by simp
    with assms(6) rd show ?thesis by auto
  qed
qed

lemma demo_tool_keeps: "tool_keeps (demo_host sys failing) p"
  by (simp add: tool_keeps_def demo_host_def)

text \<open>The definitions a run on the sample host unfolds to.\<close>

lemmas demo_defs = compile_postgres_def git_status_def demo_host_def demo_world_def demo_fs_def
  source_stamp_of_def read_build_stamp_def path_exists_def read_text_def is_outdated_def
  rebuild_def uuidlib_for_def prepare_build_dir_def andthen_def toolchain_def
  run_with_jobs_def jobs_arg_def str_int_def str_nat.simps digit_char_def subprocess_run_def
  postgres_build_stamp_def postgres_build_def build_dir_def emit_def rmtree_def
  mkdir_parents_def write_stamp_def open_w_def file_write_def raise_def new_events_def
  configure_argv_def make_argv_def make_contrib_argv_def make_install_argv_def
  make_contrib_install_argv_def postgres_src_def path_str_def git_argv_def is_file_def

text \<open>The grammar cache.\<close>

lemma path_str_append:
  "p \<noteq> [] \<Longrightarrow> path_str (p @ q) = path_str p @ concat (map ((#) CHR ''/'') q)"
  by (simp add: path_str_def)

lemma pickle_names:
  "pickle_name ''edb.edgeql.parser.grammar.single'' = ''single.pickle''"
  "pickle_name ''edb.edgeql.parser.grammar.block'' = ''block.pickle''"
  "pickle_name ''edb.edgeql.parser.grammar.sdldocument'' = ''sdldocument.pickle''"
  by (simp_all add: pickle_name_def rpartition_last_def)

lemma parse_grammar_dir: "parse_path ''edb/edgeql/parser/grammar'' = (False, grammar_dir)"
  by (simp add: parse_path_def grammar_dir_def)

lemma parse_pickle_names:
  "parse_path ''single.pickle'' = (False, [''single.pickle''])"
  "parse_path ''block.pickle'' = (False, [''block.pickle''])"
  "parse_path ''sdldocument.pickle'' = (False, [''sdldocument.pickle''])"
  by (simp_all add: parse_path_def)

lemma subpath_in_tree:
  assumes "r \<noteq> []"
  shows "parse_path (drop (Suc (length (path_str r))) (path_str (r @ grammar_dir))) =
     (False, grammar_dir)"
proof -
  have "drop (Suc (length (path_str r))) (path_str (r @ grammar_dir)) =
      ''edb/edgeql/parser/grammar''"
    by (simp add: path_str_append [OF assms] grammar_dir_def)
  then show ?thesis by (simp add: parse_grammar_dir)
qed

lemma pickle_path_in_tree:
  assumes "in_source_tree env" "spec \<in> set grammar_specs"
  shows "pickle_path env spec = (False, grammar_dir @ [pickle_name spec])"
proof -
  from assms have r: "ROOT_PATH env \<noteq> []"
    and f: "module_file env spec =
      ROOT_PATH env @ grammar_dir @ [rpartition_last CHR ''.'' spec @ ''.py'']"
    by (auto simp: in_source_tree_def list_all_iff)
  have b: "butlast (module_file env spec) = ROOT_PATH env @ grammar_dir"
    by (simp add: f butlast_append)
  from assms(2) have "parse_path (pickle_name spec) = (False, [pickle_name spec])"
    by (auto simp: grammar_specs_def pickle_names parse_pickle_names)
  then show ?thesis
    by (simp add: pickle_path_def Let_def b subpath_in_tree [OF r] join_pure_def pickle_name_def)
qed

lemma compile_spec_in_tree:
  assumes "in_source_tree env" "spec \<in> set grammar_specs"
  shows "compile_spec env build_lib inplace spec =
     andthen (mkdir_parents True (build_lib @ grammar_dir))
       (andthen (run_parsing_Spec env spec (cache_path build_lib spec))
          (if inplace then copy2 (cache_path build_lib spec) (mirror_path env spec)
           else Pair None))"
  by (simp add: compile_spec_def Let_def pickle_path_in_tree [OF assms] joinpath_def
      cache_path_def mirror_path_def butlast_append)

lemma did_andthen:
  assumes "events_spec (did sel c1) f" "events_spec (did sel c2) g"
  shows "events_spec (did sel (c1 @ c2)) (andthen f g)"
proof (rule events_spec_andthen [OF assms])
  show "\<And>e evs. did sel c1 (Some e) evs \<Longrightarrow> did sel (c1 @ c2) (Some e) evs"
    by (simp add: did_def)
  show "\<And>r e1 e2. did sel c1 None e1 \<Longrightarrow> did sel c2 r e2 \<Longrightarrow> did sel (c1 @ c2) r (e1 @ e2)"
    by (simp add: did_def)
qed

lemma did_Pair: "events_spec (did sel []) (Pair None)"
  by (rule events_specI) (auto simp: did_def)

lemma did_mkdir_parents: "\<not> sel (Mkdir p) \<Longrightarrow> events_spec (did sel []) (mkdir_parents b p)"
proof (rule events_specI)
  fix w res w' assume "\<not> sel (Mkdir p)" "mkdir_parents b p w = (res, w')"
  then show "take (length (trace w)) (trace w') = trace w \<and>
     did sel [] res (drop (length (trace w)) (trace w'))"
    by (cases "fs w p")
       (auto simp: mkdir_parents_def emit_def did_def split: node.splits if_splits)
qed

lemma did_run_parsing_Spec:
  "events_spec (did sel (if sel (ParsingSpec n (path_str c)) then [ParsingSpec n (path_str c)] else []))
     (run_parsing_Spec env n c)"
proof (rule events_specI)
  fix w res w' assume "run_parsing_Spec env n c w = (res, w')"
  then show "take (length (trace w)) (trace w') = trace w \<and>
     did sel (if sel (ParsingSpec n (path_str c)) then [ParsingSpec n (path_str c)] else [])
       res (drop (length (trace w)) (trace w'))"
    by (cases "parsing_Spec env n c (fs w)")
       (auto simp: run_parsing_Spec_def emit_def did_def)
qed

lemma did_copy2:
  "events_spec (did sel (if sel (Copy2 s d) then [Copy2 s d] else [])) (copy2 s d)"
proof (rule events_specI)
  fix w res w' assume "copy2 s d w = (res, w')"
  then show "take (length (trace w)) (trace w') = trace w \<and>
     did sel (if sel (Copy2 s d) then [Copy2 s d] else [])
       res (drop (length (trace w)) (trace w'))"
    by (auto simp: copy2_def emit_def did_def split: sum.splits)
qed

lemma did_compile_spec_parsing:
  assumes "in_source_tree env" "spec \<in> set grammar_specs"
  shows "events_spec (did is_parsing [ParsingSpec spec (path_str (cache_path bl spec))])
     (compile_spec env bl inplace spec)"
proof -
  have "events_spec (did is_parsing ([] @ [ParsingSpec spec (path_str (cache_path bl spec))] @ []))
     (andthen (mkdir_parents True (bl @ grammar_dir))
       (andthen (run_parsing_Spec env spec (cache_path bl spec))
          (if inplace then copy2 (cache_path bl spec) (mirror_path env spec)
           else Pair None)))"
    using did_run_parsing_Spec [of is_parsing spec "cache_path bl spec" env]
      did_copy2 [of is_parsing "cache_path bl spec" "mirror_path env spec"]
    by (intro did_andthen did_mkdir_parents) (auto simp: did_Pair)
  then show ?thesis by (simp add: compile_spec_in_tree [OF assms])
qed

lemma did_compile_spec_copy:
  assumes "in_source_tree env" "spec \<in> set grammar_specs"
  shows "events_spec
     (did is_copy (if inplace then [Copy2 (cache_path bl spec) (mirror_path env spec)] else []))
     (compile_spec env bl inplace spec)"
proof -
  have "events_spec (did is_copy ([] @ [] @
       (if inplace then [Copy2 (cache_path bl spec) (mirror_path env spec)] else [])))
     (andthen (mkdir_parents True (bl @ grammar_dir))
       (andthen (run_parsing_Spec env spec (cache_path bl spec))
          (if inplace then copy2 (cache_path bl spec) (mirror_path env spec)
           else Pair None)))"
    using did_run_parsing_Spec [of is_copy spec "cache_path bl spec" env]
      did_copy2 [of is_copy "cache_path bl spec" "mirror_path env spec"]
    by (intro did_andthen did_mkdir_parents) (auto simp: did_Pair)
  then show ?thesis by (simp add: compile_spec_in_tree [OF assms])
qed

lemma did_compile_specs_parsing:
  assumes "in_source_tree env" "set specs \<subseteq> set grammar_specs"
  shows "events_spec
     (did is_parsing (map (\<lambda>spec. ParsingSpec spec (path_str (cache_path bl spec))) specs))
     (compile_specs env bl inplace specs)"
  using assms(2)
proof (induction specs)
  case Nil
  show ?case by (simp add: did_Pair)
next
  case (Cons spec specs)
  then have "events_spec
     (did is_parsing ([ParsingSpec spec (path_str (cache_path bl spec))] @
        map (\<lambda>spec. ParsingSpec spec (path_str (cache_path bl spec))) specs))
     (andthen (compile_spec env bl inplace spec) (compile_specs env bl inplace specs))"
    by (intro did_andthen did_compile_spec_parsing assms(1)) auto
  then show ?case by simp
qed

lemma did_compile_specs_copy:
  assumes "in_source_tree env" "set specs \<subseteq> set grammar_specs"
  shows "events_spec
     (did is_copy (if inplace
        then map (\<lambda>spec. Copy2 (cache_path bl spec) (mirror_path env spec)) specs else []))
     (compile_specs env bl inplace specs)"
  using assms(2)
proof (induction specs)
  case Nil
  show ?case by (simp add: did_Pair)
next
  case (Cons spec specs)
  then have "events_spec
     (did is_copy ((if inplace then [Copy2 (cache_path bl spec) (mirror_path env spec)] else []) @
        (if inplace
         then map (\<lambda>spec. Copy2 (cache_path bl spec) (mirror_path env spec)) specs else [])))
     (andthen (compile_spec env bl inplace spec) (compile_specs env bl inplace specs))"
    by (intro did_andthen did_compile_spec_copy assms(1)) auto
  then show ?case by (cases inplace) simp_all
qed

lemma mkdir_parents_keeps:
  assumes "mkdir_parents b p w = (res, w')" "fs w q \<noteq> None \<or> \<not> prefix q p"
  shows "fs w' q = fs w q"
  using assms
  by (cases "fs w p")
     (auto simp: mkdir_parents_def emit_def split: node.splits if_splits)

lemma run_parsing_Spec_frame:
  assumes "lib_writes_only_pickle env" "run_parsing_Spec env n c w = (r, w')" "q \<noteq> c"
  shows "fs w' q = fs w q"
proof -
  from assms(1,3) have "snd (parsing_Spec env n c (fs w)) q = fs w q"
    unfolding lib_writes_only_pickle_def by blast
  with assms(2) show ?thesis
    by (cases "parsing_Spec env n c (fs w)") (auto simp: run_parsing_Spec_def emit_def)
qed

lemma copy2_success:
  assumes "copy2 src dst w = (None, w')" "fs w dst \<noteq> Some Dir"
  shows "src \<noteq> dst \<and> (\<exists>t. fs w src = Some (File t) \<and> fs w' = (fs w)(dst \<mapsto> File t))"
  using assms
  by (auto simp: copy2_def copy_content_def emit_def
      split: sum.splits if_splits option.splits node.splits)

lemma pickle_name_inj:
  "s \<in> set grammar_specs \<Longrightarrow> s' \<in> set grammar_specs \<Longrightarrow>
   pickle_name s = pickle_name s' \<Longrightarrow> s = s'"
  by (auto simp: grammar_specs_def pickle_names)

lemma compile_spec_mirror:
  assumes "in_source_tree env" "spec \<in> set grammar_specs" "lib_writes_only_pickle env"
    and "compile_spec env bl True spec w = (None, w1)"
    and "fs w (mirror_path env spec) \<noteq> Some Dir"
    and "\<not> prefix (mirror_path env spec) (bl @ grammar_dir)"
  shows "cache_path bl spec \<noteq> mirror_path env spec \<and>
     (\<exists>t. fs w1 (cache_path bl spec) = Some (File t) \<and>
          fs w1 (mirror_path env spec) = Some (File t)) \<and>
     (\<forall>q. q \<noteq> cache_path bl spec \<and> q \<noteq> mirror_path env spec \<and>
          (fs w q \<noteq> None \<or> \<not> prefix q (bl @ grammar_dir)) \<longrightarrow> fs w1 q = fs w q)"
proof -
  let ?c = "cache_path bl spec" and ?m = "mirror_path env spec"
  from assms(4) have run: "andthen (mkdir_parents True (bl @ grammar_dir))
       (andthen (run_parsing_Spec env spec ?c) (copy2 ?c ?m)) w = (None, w1)"
    by (simp add: compile_spec_in_tree [OF assms(1,2)])
  then obtain wa where a: "mkdir_parents True (bl @ grammar_dir) w = (None, wa)"
    and rest: "andthen (run_parsing_Spec env spec ?c) (copy2 ?c ?m) wa = (None, w1)"
    by (cases rule: andthen_cases) auto
  from rest obtain wb where b: "run_parsing_Spec env spec ?c wa = (None, wb)"
    and c: "copy2 ?c ?m wb = (None, w1)"
    by (cases rule: andthen_cases) auto
  note ka = mkdir_parents_keeps [OF a]
  note kb = run_parsing_Spec_frame [OF assms(3) b]
  from assms(6) have ma: "fs wa ?m = fs w ?m" by (simp add: ka)
  have ne: "?c \<noteq> ?m"
  proof
    assume eq: "?c = ?m"
    show False
    proof (cases "fs wb ?m = Some Dir")
      case True
      with c eq show False
        by (auto simp: copy2_def copy_content_def split: sum.splits if_splits)
    next
      case False
      from copy2_success [OF c False] eq show False by simp
    qed
  qed
  then have mb: "fs wb ?m = fs w ?m" using kb [of ?m] ma by simp
  with assms(5) have "fs wb ?m \<noteq> Some Dir" by simp
  from copy2_success [OF c this] obtain t where
    t: "fs wb ?c = Some (File t)" "fs w1 = (fs wb)(?m \<mapsto> File t)" by blast
  have "fs w1 q = fs w q"
    if "q \<noteq> ?c \<and> q \<noteq> ?m \<and> (fs w q \<noteq> None \<or> \<not> prefix q (bl @ grammar_dir))" for q
    using that t(2) kb [of q] ka [of q] by simp
  with ne t show ?thesis by simp
qed

lemma compile_specs_mirror:
  assumes "in_source_tree env" "lib_writes_only_pickle env"
    and "set specs \<subseteq> set grammar_specs" "distinct specs"
    and "compile_specs env bl True specs w = (None, w')"
    and "\<forall>s\<in>set specs. fs w (mirror_path env s) \<noteq> Some Dir"
    and "\<forall>s\<in>set specs. \<not> prefix (mirror_path env s) (bl @ grammar_dir)"
  shows "(\<forall>s\<in>set specs. \<exists>t. fs w' (cache_path bl s) = Some (File t) \<and>
            fs w' (mirror_path env s) = Some (File t)) \<and>
     (\<forall>q. (\<forall>s\<in>set specs. q \<noteq> cache_path bl s \<and> q \<noteq> mirror_path env s) \<and>
          (fs w q \<noteq> None \<or> \<not> prefix q (bl @ grammar_dir)) \<longrightarrow> fs w' q = fs w q)"
  using assms(3-7)
proof (induction specs arbitrary: w)
  case Nil
  then show ?case by simp
next
  case (Cons spec specs)
  from Cons.prems(3) obtain w1 where
    one: "compile_spec env bl True spec w = (None, w1)"
    and more: "compile_specs env bl True specs w1 = (None, w')"
    by (auto elim: andthen_cases)
  from Cons.prems have sp: "spec \<in> set grammar_specs" and nd: "fs w (mirror_path env spec) \<noteq> Some Dir"
    and np: "\<not> prefix (mirror_path env spec) (bl @ grammar_dir)" by auto
  note st = compile_spec_mirror [OF assms(1) sp assms(2) one nd np]
  have diff: "cache_path bl s \<noteq> cache_path bl spec \<and> cache_path bl s \<noteq> mirror_path env spec \<and>
      mirror_path env s \<noteq> cache_path bl spec \<and> mirror_path env s \<noteq> mirror_path env spec"
    if "s \<in> set specs" for s
  proof -
    from that Cons.prems(1,2) sp have "pickle_name s \<noteq> pickle_name spec"
      using pickle_name_inj [of s spec] by auto
    then show ?thesis by (simp add: cache_path_def mirror_path_def)
  qed
  have nd1: "\<forall>s\<in>set specs. fs w1 (mirror_path env s) \<noteq> Some Dir"
  proof
    fix s assume s: "s \<in> set specs"
    with Cons.prems(4,5) diff [OF s] st have "fs w1 (mirror_path env s) = fs w (mirror_path env s)"
      by simp
    with s Cons.prems(4) show "fs w1 (mirror_path env s) \<noteq> Some Dir" by simp
  qed
  from Cons.prems have sub: "set specs \<subseteq> set grammar_specs" "distinct specs"
    "\<forall>s\<in>set specs. \<not> prefix (mirror_path env s) (bl @ grammar_dir)" by auto
  note ih = Cons.IH [OF sub(1,2) more nd1 sub(3)]
  have keep: "fs w' q = fs w1 q"
    if "q = cache_path bl spec \<or> q = mirror_path env spec" for q
  proof -
    from that st have "fs w1 q \<noteq> None" by auto
    moreover from that diff have "\<forall>s\<in>set specs. q \<noteq> cache_path bl s \<and> q \<noteq> mirror_path env s"
      by blast
    ultimately show ?thesis using ih by blast
  qed
  have first: "\<exists>t. fs w' (cache_path bl spec) = Some (File t) \<and>
      fs w' (mirror_path env spec) = Some (File t)"
    using st keep by simp
  have frame: "fs w' q = fs w q"
    if q: "(\<forall>s\<in>set (spec # specs). q \<noteq> cache_path bl s \<and> q \<noteq> mirror_path env s) \<and>
        (fs w q \<noteq> None \<or> \<not> prefix q (bl @ grammar_dir))" for q
  proof -
    from q st have e1: "fs w1 q = fs w q" by simp
    with q ih have "fs w' q = fs w1 q" by simp
    with e1 show ?thesis by simp
  qed
  from first ih frame show ?case by simp
qed

lemma cache_paths:
  "map (cache_path bl) grammar_specs =
     [bl @ [''edb'', ''edgeql'', ''parser'', ''grammar'', ''single.pickle''],
      bl @ [''edb'', ''edgeql'', ''parser'', ''grammar'', ''block.pickle''],
      bl @ [''edb'', ''edgeql'', ''parser'', ''grammar'', ''sdldocument.pickle'']]"
  by (simp add: grammar_specs_def cache_path_def pickle_names grammar_dir_def)

lemma distinct_grammar_specs: "distinct grammar_specs"
  by (simp add: grammar_specs_def)

lemmas demo_grammar_defs = compile_parsers_def grammar_specs_def compile_specs.simps
  compile_spec_def pickle_path_def Let_def demo_grammar_env_def demo_source_tree_def
  grammar_dir_def rpartition_last_def path_str_def parse_path_def join_pure_def joinpath_def
  andthen_def mkdir_parents_def is_file_def run_parsing_Spec_def copy2_def copy_content_def
  emit_def new_events_def

lemma demo_in_source_tree: "in_source_tree demo_grammar_env"
  by (simp add: in_source_tree_def demo_grammar_env_def grammar_specs_def)

lemma demo_lib_writes_only_pickle: "lib_writes_only_pickle demo_grammar_env"
  by (simp add: lib_writes_only_pickle_def demo_grammar_env_def)

lemma demo_pickle_paths:
  "pickle_path demo_grammar_env ''edb.edgeql.parser.grammar.single'' =
     (False, [''edb'', ''edgeql'', ''parser'', ''grammar'', ''single.pickle''])"
  "pickle_path demo_grammar_env ''edb.edgeql.parser.grammar.block'' =
     (False, [''edb'', ''edgeql'', ''parser'', ''grammar'', ''block.pickle''])"
  "pickle_path demo_grammar_env ''edb.edgeql.parser.grammar.sdldocument'' =
     (False, [''edb'', ''edgeql'', ''parser'', ''grammar'', ''sdldocument.pickle''])"
  by (simp_all add: demo_grammar_defs)

section \<open>Lemmas about \<open>build_ext.run\<close>\<close>

lemma unlink_cases:
  assumes "unlink p w = (res, w')"
  shows "(res \<noteq> None \<and> w' = w) \<or>
     (res = None \<and> is_file (fs w p) \<and>
      w' = w\<lparr>fs := (fs w)(p := None), trace := trace w @ [Unlink p]\<rparr>)"
  using assms
  by (cases "fs w p") (auto simp: unlink_def emit_def is_file_def split: node.splits)

lemma mkdir_parents_effect:
  assumes "mkdir_parents b p w = (None, w')"
  shows "(\<forall>q. fs w' q = fs w q \<or> (fs w q = None \<and> fs w' q = Some Dir)) \<and>
     (w' = w \<or> trace w' = trace w @ [Mkdir p])"
  using assms
  by (cases "fs w p")
     (auto simp: mkdir_parents_def emit_def split: node.splits if_splits)

lemma new_events_prefix:
  "prefix (trace w) (trace w1) \<Longrightarrow> trace w1 = trace w @ new_events w w1"
  by (auto simp: new_events_def prefix_def)

lemma new_events_trans:
  assumes "prefix (trace w) (trace w1)" "prefix (trace w1) (trace w2)"
  shows "new_events w w2 = new_events w w1 @ new_events w1 w2 \<and> prefix (trace w) (trace w2)"
proof -
  from assms obtain a b where "trace w1 = trace w @ a" "trace w2 = trace w1 @ b"
    by (auto simp: prefix_def)
  then show ?thesis by (simp add: new_events_def)
qed

text \<open>One round of the placement loop.\<close>

lemma place_ext_effect:
  assumes "place_ext env name w = (None, w1)"
  shows "\<not> is_file (fs w1 (get_ext_fullpath env True name)) \<and>
     (\<forall>p. is_file (fs w1 p) \<longrightarrow> is_file (fs w p)) \<and>
     (\<forall>p. is_file (fs w p) \<longrightarrow> is_file (fs w1 p) \<or> Unlink p \<in> set (new_events w w1)) \<and>
     prefix (trace w) (trace w1) \<and> list_all is_placement (new_events w w1)"
proof -
  let ?t = "get_ext_fullpath env True name"
  let ?first = "\<lambda>w. if path_exists (fs w) ?t then unlink ?t w else (None, w)"
  from assms have run: "andthen ?first (mkdir_parents True (butlast ?t)) w = (None, w1)"
    by (simp add: place_ext_def Let_def)
  then obtain wa where a: "?first w = (None, wa)"
    and m: "mkdir_parents True (butlast ?t) wa = (None, w1)"
    by (cases rule: andthen_cases) auto
  have fa: "\<not> is_file (fs wa ?t) \<and> (\<forall>p. p \<noteq> ?t \<longrightarrow> fs wa p = fs w p) \<and>
      ((trace wa = trace w \<and> \<not> is_file (fs w ?t)) \<or>
       (trace wa = trace w @ [Unlink ?t] \<and> is_file (fs w ?t)))"
  proof (cases "path_exists (fs w) ?t")
    case True
    with a have "unlink ?t w = (None, wa)" by simp
    from unlink_cases [OF this] show ?thesis by (auto simp: is_file_def)
  next
    case False
    with a show ?thesis by (auto simp: path_exists_def is_file_def)
  qed
  note me = mkdir_parents_effect [OF m]
  have f1: "is_file (fs w1 q) = is_file (fs wa q)" for q
  proof -
    from me have "fs w1 q = fs wa q \<or> (fs wa q = None \<and> fs w1 q = Some Dir)" by blast
    then show ?thesis by (auto simp: is_file_def)
  qed
  from me have tm: "trace w1 = trace wa \<or> trace w1 = trace wa @ [Mkdir (butlast ?t)]"
    by auto
  have tr: "prefix (trace w) (trace w1) \<and> list_all is_placement (new_events w w1) \<and>
      (is_file (fs w ?t) \<longrightarrow> Unlink ?t \<in> set (new_events w w1))"
  proof -
    from fa consider "trace wa = trace w" "\<not> is_file (fs w ?t)"
      | "trace wa = trace w @ [Unlink ?t]" by blast
    then show ?thesis
    proof cases
      case 1
      with tm show ?thesis by (auto simp: new_events_def)
    next
      case 2
      with tm show ?thesis by (auto simp: new_events_def)
    qed
  qed
  have p3: "is_file (fs w1 p) \<or> Unlink p \<in> set (new_events w w1)" if "is_file (fs w p)" for p
  proof (cases "p = ?t")
    case True
    with that tr show ?thesis by simp
  next
    case False
    with fa that show ?thesis by (simp add: f1)
  qed
  have p2: "is_file (fs w p)" if "is_file (fs w1 p)" for p
  proof (cases "p = ?t")
    case True
    with that fa show ?thesis by (simp add: f1)
  next
    case False
    with fa that show ?thesis by (simp add: f1)
  qed
  have p1: "\<not> is_file (fs w1 ?t)" using fa by (simp add: f1)
  from p1 p2 p3 tr show ?thesis by blast
qed

lemma plan_placement_effect:
  assumes "plan_placement env names w = (None, w1)"
  shows "(\<forall>n\<in>set names. \<not> is_file (fs w1 (get_ext_fullpath env True n))) \<and>
     (\<forall>p. is_file (fs w1 p) \<longrightarrow> is_file (fs w p)) \<and>
     (\<forall>p. is_file (fs w p) \<longrightarrow> is_file (fs w1 p) \<or> Unlink p \<in> set (new_events w w1)) \<and>
     prefix (trace w) (trace w1) \<and> list_all is_placement (new_events w w1)"
  using assms
proof (induction names arbitrary: w)
  case Nil
  then show ?case by (simp add: new_events_def)
next
  case (Cons name names)
  from Cons.prems obtain wa where one: "place_ext env name w = (None, wa)"
    and more: "plan_placement env names wa = (None, w1)"
    by (auto elim: andthen_cases)
  note a = place_ext_effect [OF one]
  note b = Cons.IH [OF more]
  from a b have "prefix (trace w) (trace wa)" "prefix (trace wa) (trace w1)" by blast+
  from new_events_trans [OF this]
  have t: "new_events w w1 = new_events w wa @ new_events wa w1"
    and pr: "prefix (trace w) (trace w1)" by simp_all
  have c1: "\<forall>n\<in>set (name # names). \<not> is_file (fs w1 (get_ext_fullpath env True n))"
    using a b by auto
  have c2: "\<forall>p. is_file (fs w1 p) \<longrightarrow> is_file (fs w p)" using a b by blast
  have c3: "\<forall>p. is_file (fs w p) \<longrightarrow> is_file (fs w1 p) \<or> Unlink p \<in> set (new_events w w1)"
  proof (intro allI impI)
    fix p assume "is_file (fs w p)"
    with a have "is_file (fs wa p) \<or> Unlink p \<in> set (new_events w wa)" by blast
    with b show "is_file (fs w1 p) \<or> Unlink p \<in> set (new_events w w1)"
      unfolding t by auto
  qed
  have c4: "list_all is_placement (new_events w w1)" using a b unfolding t by simp
  from c1 c2 c3 pr c4 show ?case by blast
qed

lemma placed_andthen:
  assumes "events_spec placed f" "events_spec placed g"
  shows "events_spec placed (andthen f g)"
  by (rule events_spec_andthen [OF assms]) (simp_all add: placed_def)

lemma placed_unlink: "events_spec placed (unlink p)"
proof (rule events_specI)
  fix w res w' assume "unlink p w = (res, w')"
  from unlink_cases [OF this]
  show "take (length (trace w)) (trace w') = trace w \<and>
     placed res (drop (length (trace w)) (trace w'))"
    by (auto simp: placed_def)
qed

lemma placed_mkdir_parents: "events_spec placed (mkdir_parents b p)"
proof (rule events_specI)
  fix w res w' assume "mkdir_parents b p w = (res, w')"
  then show "take (length (trace w)) (trace w') = trace w \<and>
     placed res (drop (length (trace w)) (trace w'))"
    by (cases "fs w p")
       (auto simp: mkdir_parents_def emit_def placed_def split: node.splits if_splits)
qed

lemma placed_place_ext: "events_spec placed (place_ext env name)"
  unfolding place_ext_def Let_def
  by (intro placed_andthen events_spec_cond placed_unlink placed_mkdir_parents)
     (simp add: placed_def)

lemma placed_plan_placement: "events_spec placed (plan_placement env names)"
proof (induction names)
  case Nil
  show ?case by (simp add: events_spec_def placed_def)
next
  case (Cons name names)
  then show ?case by (simp add: placed_andthen placed_place_ext)
qed

lemma run_super_events:
  "run_super env w = (res, w') \<Longrightarrow> trace w' = trace w @ [SuperRun]"
  by (cases "super_run env (fs w)") (auto simp: run_super_def emit_def)

lemma trace_checked:
  "trace (checked w) = trace w @ [LogInfo ''running build_rust'', rustc_event]"
  by (simp add: checked_def emit_def)

text \<open>The run, when the toolchain check and the placement loop have gone through.\<close>

lemma build_ext_run_unfold:
  assumes "rust_extensions env \<noteq> []" "rustc_V env = Some (0, ver)"
    and "\<not> version_less ver RUST_VERSION" "\<not> self_inplace env"
    and "plan_placement env (rust_extensions env) (checked w) = (None, w1)"
  shows "build_ext_run env w =
     andthen (run_build_rust env) (andthen (copy_all (copy_list env)) (run_super env))
       (emit (cargo_target_event env) w1)"
  using assms
  by (simp add: build_ext_run_def andthen_assoc check_rust_def log_event_def
      andthen_def [of "log_event _"] andthen_def [of "check_rust _"]
      andthen_def [of "plan_placement _ _"] checked_def rustc_event_def cargo_target_event_def)

lemma check_rust_cases:
  assumes "check_rust env w = (r, w1)"
  shows "(r \<noteq> None \<and> (trace w1 = trace w \<or>
            (\<exists>rc. trace w1 = trace w @ [Subprocess [''rustc'', ''-V''] None rc]))) \<or>
     (r = None \<and> w1 = emit rustc_event w \<and>
      (\<exists>ver. rustc_V env = Some (0, ver) \<and> \<not> version_less ver RUST_VERSION))"
proof (cases "rustc_V env")
  case None
  with assms show ?thesis by (auto simp: check_rust_def)
next
  case (Some v)
  obtain rc ver where v: "v = (rc, ver)" by (cases v)
  from assms Some v show ?thesis
    by (cases "rc = 0"; cases "version_less ver RUST_VERSION")
       (auto simp: check_rust_def emit_def rustc_event_def)
qed

lemma build_ext_run_chain:
  "rust_extensions env \<noteq> [] \<Longrightarrow> \<not> self_inplace env \<Longrightarrow>
   build_ext_run env =
     andthen (log_event (LogInfo ''running build_rust''))
    (andthen (check_rust env)
    (andthen (plan_placement env (rust_extensions env))
    (andthen (log_event (cargo_target_event env))
    (andthen (run_build_rust env)
    (andthen (copy_all (copy_list env)) (run_super env))))))"
  by (simp add: build_ext_run_def andthen_assoc cargo_target_event_def)

text \<open>Either the Rust build step does not start, or the toolchain check and the
  placement loop have gone through.\<close>

lemma build_ext_run_cases:
  assumes "build_ext_run env w = (res, w')" "\<not> self_inplace env"
  shows "BuildRust \<notin> set (new_events w w') \<or>
     (\<exists>ver w1. rust_extensions env \<noteq> [] \<and> rustc_V env = Some (0, ver) \<and>
        \<not> version_less ver RUST_VERSION \<and>
        plan_placement env (rust_extensions env) (checked w) = (None, w1))"
proof (cases "rust_extensions env = []")
  case True
  with assms(1) have "run_super env w = (res, w')"
    by (simp add: build_ext_run_def andthen_Pair_left)
  from run_super_events [OF this] show ?thesis by (simp add: new_events_def)
next
  case False
  let ?log = "emit (LogInfo ''running build_rust'') w"
  let ?rest = "andthen (log_event (cargo_target_event env))
    (andthen (run_build_rust env) (andthen (copy_all (copy_list env)) (run_super env)))"
  from assms have run: "andthen (check_rust env)
      (andthen (plan_placement env (rust_extensions env)) ?rest) ?log = (res, w')"
    by (simp add: build_ext_run_chain [OF False assms(2)] andthen_def [of "log_event _"]
        log_event_def)
  have tl: "trace ?log = trace w @ [LogInfo ''running build_rust'']" by (simp add: emit_def)
  from run show ?thesis
  proof (cases rule: andthen_cases)
    case (first e)
    from check_rust_cases [OF first(1)] tl show ?thesis
      by (auto simp: new_events_def)
  next
    case (second wc)
    from check_rust_cases [OF second(1)] obtain ver where
      wc: "wc = checked w" and v: "rustc_V env = Some (0, ver)"
        "\<not> version_less ver RUST_VERSION"
      by (auto simp: checked_def)
    from second(2) show ?thesis
    proof (cases rule: andthen_cases)
      case (first e)
      from events_specD [OF placed_plan_placement first(1)]
      have "trace w' = trace wc @ new_events wc w'"
        "list_all is_placement (new_events wc w')" by (simp_all add: placed_def)
      then have "new_events w w' = [LogInfo ''running build_rust'', rustc_event] @
          new_events wc w'" "list_all is_placement (new_events wc w')"
        by (simp_all add: new_events_def [of w] wc trace_checked)
      then show ?thesis by (auto simp: list_all_iff rustc_event_def)
    next
      case (second w1)
      with False v wc show ?thesis by auto
    qed
  qed
qed

lemma run_build_rust_events:
  "run_build_rust env w = (res, w') \<Longrightarrow> trace w' = trace w @ [BuildRust]"
  by (cases "build_rust_run env (fs w)") (auto simp: run_build_rust_def emit_def)

lemma did_copyfile: "events_spec (did is_copy [CopyFile s d]) (copyfile s d)"
proof (rule events_specI)
  fix w res w' assume "copyfile s d w = (res, w')"
  then show "take (length (trace w)) (trace w') = trace w \<and>
     did is_copy [CopyFile s d] res (drop (length (trace w)) (trace w'))"
    by (auto simp: copyfile_def emit_def did_def split: sum.splits)
qed

lemma did_copy_all:
  "events_spec (did is_copy (map (\<lambda>(s, d). CopyFile s d) l)) (copy_all l)"
proof (induction l)
  case Nil
  show ?case by (simp add: did_Pair)
next
  case (Cons a l)
  obtain s d where a: "a = (s, d)" by (cases a)
  from Cons have "events_spec (did is_copy ([CopyFile s d] @ map (\<lambda>(s, d). CopyFile s d) l))
     (andthen (copyfile s d) (copy_all l))"
    by (intro did_andthen did_copyfile)
  with a show ?case by simp
qed

lemma did_run_super: "events_spec (did is_copy []) (run_super env)"
proof (rule events_specI)
  fix w res w' assume "run_super env w = (res, w')"
  from run_super_events [OF this]
  show "take (length (trace w)) (trace w') = trace w \<and>
     did is_copy [] res (drop (length (trace w)) (trace w'))"
    by (simp add: did_def)
qed

lemma did_copies_then_super:
  "events_spec (did is_copy (map (\<lambda>(s, d). CopyFile s d) l))
     (andthen (copy_all l) (run_super env))"
proof -
  have "events_spec (did is_copy (map (\<lambda>(s, d). CopyFile s d) l @ []))
     (andthen (copy_all l) (run_super env))"
    by (intro did_andthen did_copy_all did_run_super)
  then show ?thesis by simp
qed

lemma is_placement_not_copy: "is_placement e \<Longrightarrow> \<not> is_copy e \<and> e \<noteq> BuildRust"
  by (cases e) simp_all

lemmas demo_ext_defs = build_ext_run_def demo_ext_env_def demo_ext_world_def andthen_def
  log_event_def check_rust_def RUST_VERSION_def plan_placement.simps place_ext_def Let_def
  path_exists_def unlink_def mkdir_parents_def is_file_def run_build_rust_def copy_list_def
  copy_all.simps copyfile_def copy_content_def run_super_def emit_def new_events_def
  path_str_def

lemma demo_ext_target:
  "get_ext_fullpath demo_ext_env True ''edb._edgeql_rust'' = [''src'', ''edb'', ''_edgeql_rust.so'']"
  by (simp add: demo_ext_env_def)

section \<open>Staleness\<close>

text \<open>
  C1. The staleness check of \<open>_compile_postgres\<close> is decided by stamp equality alone:
  once the stamp file has been read (it is absent, or it is a file), \<open>is_outdated\<close> is
  false exactly when the stamp file holds the current source stamp. So it is true when
  there is no stamp file, true when the stored text differs from the source stamp in any
  way, and false when the two are equal.
\<close>

theorem is_outdated_binary:
  assumes "read_build_stamp p f = Inr b"
  shows "is_outdated s b = (f p \<noteq> Some (File s)) \<and>
         (f p = None \<longrightarrow> is_outdated s b) \<and>
         (\<forall>c. f p = Some (File c) \<longrightarrow> is_outdated s b = (c \<noteq> s))"
  using assms
  by (auto simp: read_build_stamp_def path_exists_def read_text_def is_outdated_def
      split: option.splits node.splits if_splits)

theorem is_outdated_binary_witness:
  "read_build_stamp [''b'', ''postgres'', ''stamp'']
     [[''b'', ''postgres'', ''stamp''] \<mapsto> File ''+abc''] = Inr (Some ''+abc'') \<and>
   is_outdated '' abc'' (Some ''+abc'') \<and>
   \<not> is_outdated ''+abc'' (Some ''+abc'') \<and>
   read_build_stamp [''b'', ''postgres'', ''stamp''] Map.empty = Inr None \<and>
   is_outdated '' abc'' None"
proof -
  have r1: "read_build_stamp [''b'', ''postgres'', ''stamp'']
     [[''b'', ''postgres'', ''stamp''] \<mapsto> File ''+abc''] = Inr (Some ''+abc'')"
    by (simp add: read_build_stamp_def path_exists_def read_text_def)
  have r2: "read_build_stamp [''b'', ''postgres'', ''stamp''] Map.empty = Inr None"
    by (simp add: read_build_stamp_def path_exists_def)
  show ?thesis
    using is_outdated_binary [OF r1, of "'' abc''"] is_outdated_binary [OF r1, of "''+abc''"]
      is_outdated_binary [OF r2, of "'' abc''"] r1 r2
    by simp
qed

section \<open>The stamp is written last\<close>

text \<open>
  C2, as amended. Let \<open>git\<close> answer for an initialised submodule, with source stamp \<open>s\<close>,
  let the stamp file be readable and lie in a directory, and let the external tools leave
  the stamp file alone. Then in every run of \<open>_compile_postgres\<close>:
  a run that ends in an exception has neither opened nor written the stamp file;
  if moreover the target was outdated when the run started, or the run was a fresh build
  in which a toolchain command failed, then every later invocation with the same source
  state, whatever its flags, finds the target outdated and enters the rebuild;
  and a run that rebuilds and returns normally has opened and written the stamp file as
  its last two actions, its only writes, and the stamp file then holds \<open>s\<close>.
  The claim as stated also promises the retry after a failed forced rebuild of a target
  whose stamp is current: there the old stamp, equal to the source stamp, stays in place.
\<close>

theorem stamp_written_only_on_success:
  assumes "git_submodule_status h = (0, out)" "source_stamp_of out = Inr s"
    and "hd out \<noteq> CHR ''-''"
    and "read_build_stamp (postgres_build_stamp build_base) (fs w) = Inr b"
    and "tool_keeps h (postgres_build_stamp build_base)"
    and "fs w (postgres_build_stamp build_base) \<noteq> None \<longrightarrow>
           fs w (postgres_build build_base) = Some Dir"
    and "compile_postgres h build_base force_build fresh_build run_configure build_contrib w
           = (res, w')"
  shows "(res \<noteq> None \<longrightarrow> filter is_write (new_events w w') = []) \<and>
     (res \<noteq> None \<and>
      (is_outdated s b \<or> (fresh_build \<and> called_process_error res \<noteq> None)) \<longrightarrow>
        (\<forall>force2 fresh2 configure2 contrib2.
           compile_postgres h build_base force2 fresh2 configure2 contrib2 w' =
             rebuild h build_base fresh2 configure2 contrib2 True s (after_git h w'))) \<and>
     (res = None \<and> (is_outdated s b \<or> force_build) \<longrightarrow>
        new_events w w' =
          filter (\<lambda>e. \<not> is_write e) (new_events w w') @
            [OpenW (postgres_build_stamp build_base),
             WriteText (postgres_build_stamp build_base) s] \<and>
        fs w' (postgres_build_stamp build_base) = Some (File s))"
proof (cases "is_outdated s b \<or> force_build")
  case False
  with assms(7) have "res = None"
    by (simp add: compile_postgres_decided [OF assms(1-4)])
  with False show ?thesis by simp
next
  case True
  let ?p = "postgres_build_stamp build_base"
  let ?w = "after_git h w"
  from True assms(7) have reb: "rebuild h build_base fresh_build run_configure build_contrib
      (is_outdated s b) s ?w = (res, w')"
    by (simp add: compile_postgres_decided [OF assms(1-4)])
  from events_specD [OF wl_rebuild reb]
  have t: "trace w' = trace ?w @ new_events ?w w'"
    and wl: "writes_last ?p s res (new_events ?w w')" by simp_all
  from new_events_after_git [OF t]
  have ne: "new_events w w' = [git_event h, git_event h] @ new_events ?w w'" by simp
  have a: "filter is_write (new_events w w') = []" if "res \<noteq> None"
    using wl that by (simp add: ne writes_last_def git_event_def)
  have c: "new_events w w' = filter (\<lambda>e. \<not> is_write e) (new_events w w') @
      [OpenW ?p, WriteText ?p s] \<and> fs w' ?p = Some (File s)" if "res = None"
  proof -
    from wl that have "new_events ?w w' =
        filter (\<lambda>e. \<not> is_write e) (new_events ?w w') @ [OpenW ?p, WriteText ?p s]"
      by (simp add: writes_last_def)
    then have "new_events w w' = filter (\<lambda>e. \<not> is_write e) (new_events w w') @
        [OpenW ?p, WriteText ?p s]"
      by (simp add: ne git_event_def)
    moreover from reb that have "fs w' ?p = Some (File s)"
      by (simp add: rebuild_success_stamp)
    ultimately show ?thesis by simp
  qed
  have b: "compile_postgres h build_base force2 fresh2 configure2 contrib2 w' =
      rebuild h build_base fresh2 configure2 contrib2 True s (after_git h w')"
    if "res \<noteq> None" "is_outdated s b \<or> (fresh_build \<and> called_process_error res \<noteq> None)"
    for force2 fresh2 configure2 contrib2
  proof -
    from assms(4,6) have r: "read_build_stamp ?p (fs ?w) = Inr b"
      and wf: "fs ?w ?p \<noteq> None \<longrightarrow> fs ?w (postgres_build build_base) = Some Dir"
      by (simp_all add: fs_after_git)
    from failed_rebuild_stays_outdated [OF reb that(1) assms(5) r wf that(2)]
    obtain b' where "read_build_stamp ?p (fs w') = Inr b'" "is_outdated s b'" by blast
    then show ?thesis
      by (simp add: compile_postgres_decided [OF assms(1-3)])
  qed
  from a b c show ?thesis by blast
qed

text \<open>
  An outdated target whose \<open>make install\<close> fails: nothing is written, and the next
  invocation is the rebuild.
\<close>

theorem stamp_written_only_on_success_witness:
  "fst (compile_postgres (demo_host ''Linux'' make_install_argv) [''b''] False False False False
          (demo_world ''+abc123'')) = Some (CalledProcessError 2 make_install_argv) \<and>
   filter is_write (new_events (demo_world ''+abc123'')
     (snd (compile_postgres (demo_host ''Linux'' make_install_argv) [''b'']
             False False False False (demo_world ''+abc123'')))) = [] \<and>
   compile_postgres (demo_host ''Linux'' make_install_argv) [''b''] False False False False
     (snd (compile_postgres (demo_host ''Linux'' make_install_argv) [''b'']
             False False False False (demo_world ''+abc123''))) =
   rebuild (demo_host ''Linux'' make_install_argv) [''b''] False False False True '' abc123''
     (after_git (demo_host ''Linux'' make_install_argv)
        (snd (compile_postgres (demo_host ''Linux'' make_install_argv) [''b'']
                False False False False (demo_world ''+abc123''))))"
proof -
  let ?h = "demo_host ''Linux'' make_install_argv"
  let ?w = "demo_world ''+abc123''"
  let ?r = "compile_postgres ?h [''b''] False False False False ?w"
  have g: "git_submodule_status ?h = (0, '' abc123 postgres (REL_12)'')"
    by (simp add: demo_host_def)
  have s: "source_stamp_of '' abc123 postgres (REL_12)'' = Inr '' abc123''"
    by (simp add: source_stamp_of_def)
  have c: "hd '' abc123 postgres (REL_12)'' \<noteq> CHR ''-''" by simp
  have r: "read_build_stamp (postgres_build_stamp [''b'']) (fs ?w) = Inr (Some ''+abc123'')"
    by (simp add: demo_defs)
  have wf: "fs ?w (postgres_build_stamp [''b'']) \<noteq> None \<longrightarrow>
      fs ?w (postgres_build [''b'']) = Some Dir"
    by (simp add: demo_defs)
  have run: "?r = (fst ?r, snd ?r)" by simp
  have res: "fst ?r = Some (CalledProcessError 2 make_install_argv)"
    by (simp add: demo_defs)
  from stamp_written_only_on_success [OF g s c r demo_tool_keeps wf run] res
  show ?thesis by (simp add: is_outdated_def)
qed

text \<open>
  A forced rebuild (without \<open>fresh_build\<close>) of a target whose stamp is current, in which
  \<open>make\<close> fails; then the plain invocation of \<open>develop\<close>, with the same source state:
  it runs the two \<open>git\<close> queries and returns, the target is taken as up to date.
\<close>

theorem failed_forced_rebuild_not_retried:
  "fst (compile_postgres (demo_host ''Linux'' (make_argv ''3'')) [''b''] True False False False
          (demo_world '' abc123'')) = Some (CalledProcessError 2 (make_argv ''3'')) \<and>
   fst (compile_postgres (demo_host ''Linux'' (make_argv ''3'')) [''b''] False True True True
          (snd (compile_postgres (demo_host ''Linux'' (make_argv ''3'')) [''b'']
                  True False False False (demo_world '' abc123'')))) = None \<and>
   map event_argv
     (new_events
        (snd (compile_postgres (demo_host ''Linux'' (make_argv ''3'')) [''b'']
                True False False False (demo_world '' abc123'')))
        (snd (compile_postgres (demo_host ''Linux'' (make_argv ''3'')) [''b''] False True True True
           (snd (compile_postgres (demo_host ''Linux'' (make_argv ''3'')) [''b'']
                   True False False False (demo_world '' abc123'')))))) =
     [git_argv, git_argv]"
  by (simp add: demo_defs)

section \<open>The toolchain pipeline\<close>

text \<open>
  C3. The pipeline of \<open>_compile_postgres\<close> is fail-fast. In every run, whatever the host,
  the flags and the files: every command but the last one run exited with status zero;
  the run ends in a \<open>CalledProcessError\<close> exactly when the last event of the run is a
  command with a non-zero status, and the error carries that status and that command; and
  the commands run are, in order, a prefix of the fixed sequence: \<open>git submodule status\<close>
  twice, then \<open>configure\<close>, \<open>make\<close>, \<open>make -C contrib\<close>, \<open>make install\<close> and
  \<open>make -C contrib install\<close>, as far as the flags ask for them. A command after a failed
  one would be an event after the last: there is none. A run that succeeds and rebuilds
  has run the whole sequence.
\<close>

theorem toolchain_fail_fast:
  assumes "compile_postgres h build_base force_build fresh_build run_configure build_contrib w
             = (res, w')"
  shows "list_all (\<lambda>e. event_status e = 0) (butlast (new_events w w')) \<and>
     called_process_error res =
       (if new_events w w' \<noteq> [] \<and> event_status (last (new_events w w')) \<noteq> 0
        then Some (event_status (last (new_events w w')), event_argv (last (new_events w w')))
        else None) \<and>
     prefix (map event_argv (filter is_subprocess (new_events w w')))
       (git_argv # git_argv #
          toolchain_commands h build_base ''e2fs'' fresh_build run_configure build_contrib
            (stamp_outdated h build_base (fs w))) \<and>
     (res = None \<longrightarrow>
        map event_argv (filter is_subprocess (new_events w w')) =
          git_argv # git_argv #
            (if stamp_outdated h build_base (fs w) \<or> force_build
             then toolchain_commands h build_base ''e2fs'' fresh_build run_configure
                    build_contrib (stamp_outdated h build_base (fs w))
             else []))"
  using compile_postgres_events [OF assms] by (simp add: failfast_def)

text \<open>
  A forced rebuild with \<open>configure\<close> in which \<open>make\<close> exits with status 2: \<open>configure\<close>
  and \<open>make\<close> run, the error names \<open>make\<close>, and no install command runs.
\<close>

theorem toolchain_fail_fast_witness:
  "called_process_error
     (fst (compile_postgres (demo_host ''Linux'' (make_argv ''3'')) [''b'']
             True False True True (demo_world '' abc123''))) = Some (2, make_argv ''3'') \<and>
   map event_argv (new_events (demo_world '' abc123'')
     (snd (compile_postgres (demo_host ''Linux'' (make_argv ''3'')) [''b'']
             True False True True (demo_world '' abc123'')))) =
     [git_argv, git_argv,
      configure_argv (demo_host ''Linux'' (make_argv ''3'')) [''b''] ''e2fs'',
      make_argv ''3''] \<and>
   prefix [git_argv, git_argv,
      configure_argv (demo_host ''Linux'' (make_argv ''3'')) [''b''] ''e2fs'',
      make_argv ''3'']
     (git_argv # git_argv #
        toolchain_commands (demo_host ''Linux'' (make_argv ''3'')) [''b''] ''e2fs''
          False True True
          (stamp_outdated (demo_host ''Linux'' (make_argv ''3'')) [''b'']
             (fs (demo_world '' abc123''))))"
proof -
  let ?h = "demo_host ''Linux'' (make_argv ''3'')"
  let ?w = "demo_world '' abc123''"
  let ?r = "compile_postgres ?h [''b''] True False True True ?w"
  have run: "?r = (fst ?r, snd ?r)" by simp
  have ev: "new_events ?w (snd ?r) =
      [Subprocess git_argv None 0, Subprocess git_argv None 0,
       Subprocess (configure_argv ?h [''b''] ''e2fs'') (Some [''b'', ''postgres'', ''build'']) 0,
       Subprocess (make_argv ''3'') (Some [''b'', ''postgres'', ''build'']) 2]"
    by (simp add: demo_defs)
  from toolchain_fail_fast [OF run] show ?thesis
    by (simp add: ev)
qed

section \<open>When configure runs\<close>

text \<open>
  C7. Take a run in which a rebuild is triggered (the target is outdated, or
  \<open>force_build\<close> is on) and which reaches line 221: \<open>git\<close> answers for an initialised
  submodule, the stamp file is readable, the system is Linux or Darwin, and no file stands
  in the way of the build directory. Then the \<open>configure\<close> step runs if and only if
  \<open>run_configure\<close> is set, \<open>fresh_build\<close> is set, or the target is outdated. In particular
  it runs whenever \<open>fresh_build\<close> is set, also with \<open>run_configure\<close> off.
\<close>

theorem fresh_build_runs_configure:
  assumes "git_submodule_status h = (0, out)" "source_stamp_of out = Inr s"
    and "hd out \<noteq> CHR ''-''"
    and "read_build_stamp (postgres_build_stamp build_base) (fs w) = Inr b"
    and "is_outdated s b \<or> force_build"
    and "platform_system h = ''Linux'' \<or> platform_system h = ''Darwin''"
    and "build_tree_ok (fs w) build_base"
    and "compile_postgres h build_base force_build fresh_build run_configure build_contrib w
           = (res, w')"
  shows "(configure_argv h build_base ''e2fs'' \<in> set (map event_argv (new_events w w'))) =
           (run_configure \<or> fresh_build \<or> is_outdated s b) \<and>
         (fresh_build \<longrightarrow>
            configure_argv h build_base ''e2fs'' \<in> set (map event_argv (new_events w w')))"
proof -
  let ?c = "configure_argv h build_base ''e2fs''"
  let ?od = "is_outdated s b"
  have so: "stamp_outdated h build_base (fs w) = ?od"
    using assms(1,2,4) by (rule stamp_outdated_decided)
  have "?c \<in> set (map event_argv (new_events w w'))" if "run_configure \<or> fresh_build \<or> ?od"
  proof -
    from assms(5,8) have reb: "rebuild h build_base fresh_build run_configure build_contrib ?od s
        (after_git h w) = (res, w')"
      by (simp add: compile_postgres_decided [OF assms(1-4)])
    from assms(7) have "build_tree_ok (fs (after_git h w)) build_base"
      by (simp add: fs_after_git)
    from rebuild_runs_configure [OF that assms(6) this reb] obtain pre post rc where
      "trace w' = trace (after_git h w) @ pre @
         Subprocess ?c (Some (build_dir build_base)) rc # post" by blast
    then have "new_events w w' = [git_event h, git_event h] @ pre @
         Subprocess ?c (Some (build_dir build_base)) rc # post"
      by (simp add: new_events_def trace_after_git)
    then show ?thesis by simp
  qed
  moreover have "run_configure \<or> fresh_build \<or> ?od"
    if "?c \<in> set (map event_argv (new_events w w'))"
  proof -
    from that obtain e where e: "e \<in> set (new_events w w')" "event_argv e = ?c" by auto
    from compile_postgres_argvs [OF assms(8) e(1)] e(2) configure_not_make [of h build_base "''e2fs''"]
    have "?c \<in> set (toolchain_commands h build_base ''e2fs'' fresh_build run_configure
        build_contrib ?od)"
      by (auto simp: so)
    then show ?thesis by (simp add: configure_in_commands)
  qed
  ultimately show ?thesis by blast
qed

text \<open>
  A forced rebuild of an up-to-date target without \<open>run_configure\<close>: with \<open>fresh_build\<close>
  the \<open>configure\<close> step runs, without it the step does not.
\<close>

theorem fresh_build_runs_configure_witness:
  "configure_argv (demo_host ''Linux'' []) [''b''] ''e2fs'' \<in>
     set (map event_argv (new_events (demo_world '' abc123'')
       (snd (compile_postgres (demo_host ''Linux'' []) [''b''] True True False False
               (demo_world '' abc123''))))) \<and>
   configure_argv (demo_host ''Linux'' []) [''b''] ''e2fs'' \<notin>
     set (map event_argv (new_events (demo_world '' abc123'')
       (snd (compile_postgres (demo_host ''Linux'' []) [''b''] True False False False
               (demo_world '' abc123'')))))"
proof -
  let ?h = "demo_host ''Linux'' []"
  let ?w = "demo_world '' abc123''"
  have g: "git_submodule_status ?h = (0, '' abc123 postgres (REL_12)'')"
    by (simp add: demo_host_def)
  have s: "source_stamp_of '' abc123 postgres (REL_12)'' = Inr '' abc123''"
    by (simp add: source_stamp_of_def)
  have c: "hd '' abc123 postgres (REL_12)'' \<noteq> CHR ''-''" by simp
  have r: "read_build_stamp (postgres_build_stamp [''b'']) (fs ?w) = Inr (Some '' abc123'')"
    by (simp add: demo_defs)
  have t: "is_outdated '' abc123'' (Some '' abc123'') \<or> True" by simp
  have p: "platform_system ?h = ''Linux'' \<or> platform_system ?h = ''Darwin''"
    by (simp add: demo_host_def)
  have b: "build_tree_ok (fs ?w) [''b'']"
    by (simp add: build_tree_ok_def build_dir_def postgres_build_def demo_world_def
        demo_fs_def is_file_def)
  have run1: "compile_postgres ?h [''b''] True True False False ?w =
     (fst (compile_postgres ?h [''b''] True True False False ?w),
      snd (compile_postgres ?h [''b''] True True False False ?w))" by simp
  have run2: "compile_postgres ?h [''b''] True False False False ?w =
     (fst (compile_postgres ?h [''b''] True False False False ?w),
      snd (compile_postgres ?h [''b''] True False False False ?w))" by simp
  from fresh_build_runs_configure [OF g s c r t p b run1]
    fresh_build_runs_configure [OF g s c r t p b run2]
  show ?thesis by (simp add: is_outdated_def)
qed

section \<open>The worker count of the parallel compile steps\<close>

text \<open>
  C8. On a host with \<open>n \<ge> 1\<close> processors the worker count is \<open>n - 1\<close> when \<open>n > 1\<close> and
  1 otherwise, so it is at least one. It is what \<open>str(max(os.cpu_count() - 1, 1))\<close>
  gives; every command of a run that has a \<open>-j\<close> argument has this one; and every
  \<open>make\<close> invocation of a run that is not an install has a \<open>-j\<close> argument.
\<close>

theorem make_jobs_floor:
  assumes "os_cpu_count h = Some n" "1 \<le> n"
    and "compile_postgres h build_base force_build fresh_build run_configure build_contrib w
           = (res, w')"
  shows "jobs_arg h = Inr (str_int (if 1 < n then n - 1 else 1)) \<and>
     (1::int) \<le> (if 1 < n then n - 1 else 1) \<and>
     (\<forall>e\<in>set (new_events w w'). \<forall>j. j_argument (event_argv e) = Some j \<longrightarrow>
         j = str_int (if 1 < n then n - 1 else 1)) \<and>
     (\<forall>e\<in>set (new_events w w').
         take 1 (event_argv e) = [''make''] \<and> ''install'' \<notin> set (event_argv e) \<longrightarrow>
         j_argument (event_argv e) = Some (str_int (if 1 < n then n - 1 else 1)))"
proof -
  define J where "J = str_int (if 1 < n then n - 1 else 1)"
  have m: "max (n - 1) 1 = (if 1 < n then n - 1 else 1)" by arith
  from assms(1) have j: "jobs_arg h = Inr J"
    unfolding jobs_arg_def m J_def by simp
  have cases: "event_argv e = [] \<or> event_argv e = git_argv \<or>
      event_argv e = configure_argv h build_base ''e2fs'' \<or>
      event_argv e = make_argv J \<or> event_argv e = make_contrib_argv J \<or>
      event_argv e = make_install_argv \<or> event_argv e = make_contrib_install_argv"
    if "e \<in> set (new_events w w')" for e
    using compile_postgres_argvs [OF assms(3) that]
      toolchain_commands_subset [OF j, of "event_argv e" build_base "''e2fs''" fresh_build
        run_configure build_contrib "stamp_outdated h build_base (fs w)"]
    by auto
  have a: "j_argument (event_argv e) = Some k \<Longrightarrow> k = J"
    if "e \<in> set (new_events w w')" for e k
    using cases [OF that] j_argument_configure [of h build_base]
    by (auto simp: git_argv_def make_argv_def make_contrib_argv_def make_install_argv_def
        make_contrib_install_argv_def)
  have b: "take 1 (event_argv e) = [''make''] \<and> ''install'' \<notin> set (event_argv e) \<Longrightarrow>
      j_argument (event_argv e) = Some J"
    if "e \<in> set (new_events w w')" for e
    using cases [OF that] hd_configure [of h build_base "''e2fs''"]
    by (auto simp: git_argv_def make_argv_def make_contrib_argv_def make_install_argv_def
        make_contrib_install_argv_def)
  have c: "(1::int) \<le> (if 1 < n then n - 1 else 1)" by simp
  from j a b c show ?thesis unfolding J_def by blast
qed

theorem make_jobs_floor_witness:
  "jobs_arg (demo_host ''Linux'' []) = Inr ''3'' \<and>
   map (\<lambda>e. j_argument (event_argv e))
     (new_events (demo_world ''+abc123'')
        (snd (compile_postgres (demo_host ''Linux'' []) [''b''] False False False False
                (demo_world ''+abc123'')))) =
     [None, None, None, Some ''3'', Some ''3'', None, None, None, None]"
proof -
  let ?h = "demo_host ''Linux'' []"
  let ?w = "demo_world ''+abc123''"
  let ?r = "compile_postgres ?h [''b''] False False False False ?w"
  have c: "os_cpu_count ?h = Some 4" by (simp add: demo_host_def)
  have run: "?r = (fst ?r, snd ?r)" by simp
  have ev: "map (\<lambda>e. j_argument (event_argv e)) (new_events ?w (snd ?r)) =
     [None, None, None, Some ''3'', Some ''3'', None, None, None, None]"
    by (simp add: demo_defs)
  from make_jobs_floor [OF c _ run] ev show ?thesis
    by (simp add: str_int_def str_nat.simps digit_char_def)
qed

section \<open>Runs that build nothing\<close>

text \<open>
  C9. Let \<open>git submodule status\<close> succeed on an initialised submodule, with source stamp
  \<open>s\<close>, and let the stamp file be readable (absent, or a file). When the stamp file holds
  \<open>s\<close> and \<open>force_build\<close> is off, \<open>_compile_postgres\<close> returns normally, on every
  platform, having run the two \<open>git\<close> queries and nothing else: no file has changed and
  no toolchain command has run. When a rebuild is due (the stamp differs or is absent, or
  \<open>force_build\<close> is on) and the system is neither Linux nor Darwin, it raises
  \<open>NotImplementedError\<close> naming the system, again after the two \<open>git\<close> queries and
  nothing else: before any \<open>configure\<close> or \<open>make\<close> step and with every file as it was.
\<close>

theorem no_rebuild_no_effect:
  assumes "git_submodule_status h = (0, out)" "source_stamp_of out = Inr s"
    and "hd out \<noteq> CHR ''-''"
    and "read_build_stamp (postgres_build_stamp build_base) (fs w) = Inr b"
  shows "(b = Some s \<and> \<not> force_build \<longrightarrow>
            compile_postgres h build_base force_build fresh_build run_configure build_contrib w =
              (None,
               w\<lparr>trace := trace w @
                    [Subprocess git_argv None 0, Subprocess git_argv None 0]\<rparr>)) \<and>
         ((b \<noteq> Some s \<or> force_build) \<and>
          platform_system h \<noteq> ''Linux'' \<and> platform_system h \<noteq> ''Darwin'' \<longrightarrow>
            compile_postgres h build_base force_build fresh_build run_configure build_contrib w =
              (Some (NotImplementedError (''unsupported system: '' @ platform_system h)),
               w\<lparr>trace := trace w @
                    [Subprocess git_argv None 0, Subprocess git_argv None 0]\<rparr>))"
proof -
  from assms(1) have "fst (git_submodule_status h) = 0" by simp
  note ag = after_git_eq [OF this]
  show ?thesis
    unfolding compile_postgres_decided [OF assms]
    by (auto simp: ag is_outdated_def rebuild_def uuidlib_for_def raise_def)
qed

theorem no_rebuild_no_effect_witness:
  "compile_postgres (demo_host ''Windows'' []) [''b''] False True True True
     (demo_world '' abc123'') =
     (None, \<lparr>fs = demo_fs '' abc123'',
             trace = [Subprocess git_argv None 0, Subprocess git_argv None 0]\<rparr>) \<and>
   compile_postgres (demo_host ''Windows'' []) [''b''] False True True True
     (demo_world ''+abc123'') =
     (Some (NotImplementedError ''unsupported system: Windows''),
      \<lparr>fs = demo_fs ''+abc123'',
       trace = [Subprocess git_argv None 0, Subprocess git_argv None 0]\<rparr>)"
proof -
  let ?h = "demo_host ''Windows'' []"
  have g: "git_submodule_status ?h = (0, '' abc123 postgres (REL_12)'')"
    by (simp add: demo_host_def)
  have s: "source_stamp_of '' abc123 postgres (REL_12)'' = Inr '' abc123''"
    by (simp add: source_stamp_of_def)
  have c: "hd '' abc123 postgres (REL_12)'' \<noteq> CHR ''-''" by simp
  have r1: "read_build_stamp (postgres_build_stamp [''b'']) (fs (demo_world '' abc123''))
      = Inr (Some '' abc123'')"
    by (simp add: demo_defs)
  have r2: "read_build_stamp (postgres_build_stamp [''b'']) (fs (demo_world ''+abc123''))
      = Inr (Some ''+abc123'')"
    by (simp add: demo_defs)
  have p: "platform_system ?h = ''Windows''" by (simp add: demo_host_def)
  from no_rebuild_no_effect [OF g s c r1, of False True True True]
    no_rebuild_no_effect [OF g s c r2, of False True True True]
  show ?thesis by (simp add: p demo_world_def)
qed

section \<open>Fresh builds\<close>

text \<open>
  C10. Let \<open>fresh_build\<close> be on and a rebuild be triggered, on Linux or Darwin, with
  \<open>git\<close> answering for an initialised submodule, a readable stamp file that lies in a
  directory, and external tools that leave the stamp file alone. If the build output
  directory exists, the run is: the two \<open>git\<close> queries, the removal of that directory,
  and then the creation of the build directory, the toolchain commands and the stamp
  write, all of them started in a file system in which nothing is left at or below the
  build output directory, the stamp file included. And if the run ends in an exception,
  there is no stamp file afterwards, and every later invocation with the same source
  state, whatever its flags, finds the target outdated and enters the rebuild.
\<close>

theorem fresh_build_deletes_first:
  assumes "git_submodule_status h = (0, out)" "source_stamp_of out = Inr s"
    and "hd out \<noteq> CHR ''-''"
    and "read_build_stamp (postgres_build_stamp build_base) (fs w) = Inr b"
    and "is_outdated s b \<or> force_build"
    and "platform_system h = ''Linux'' \<or> platform_system h = ''Darwin''"
    and "tool_keeps h (postgres_build_stamp build_base)"
    and "fs w (postgres_build_stamp build_base) \<noteq> None \<longrightarrow>
           fs w (postgres_build build_base) = Some Dir"
    and "compile_postgres h build_base force_build True run_configure build_contrib w
           = (res, w')"
  shows "(fs w (postgres_build build_base) = Some Dir \<longrightarrow>
           (res, w') =
             andthen (mkdir_parents False (build_dir build_base))
               (andthen
                  (toolchain h build_base ''e2fs'' True run_configure build_contrib
                     (is_outdated s b))
                  (write_stamp (postgres_build_stamp build_base) s))
               (w\<lparr>fs := (\<lambda>q. if prefix (postgres_build build_base) q then None else fs w q),
                  trace := trace w @
                    [Subprocess git_argv None 0, Subprocess git_argv None 0,
                     Rmtree (postgres_build build_base)]\<rparr>)) \<and>
         (res \<noteq> None \<longrightarrow>
            fs w' (postgres_build_stamp build_base) = None \<and>
            (\<forall>force2 fresh2 configure2 contrib2.
               compile_postgres h build_base force2 fresh2 configure2 contrib2 w' =
                 rebuild h build_base fresh2 configure2 contrib2 True s (after_git h w')))"
proof -
  let ?p = "postgres_build_stamp build_base"
  let ?pb = "postgres_build build_base"
  let ?w = "after_git h w"
  from assms(6) have u: "uuidlib_for (platform_system h) = Inr ''e2fs''"
    by (auto simp: uuidlib_for_def)
  from assms(1) have g0: "fst (git_submodule_status h) = 0" by simp
  from assms(5,9) have reb: "rebuild h build_base True run_configure build_contrib
      (is_outdated s b) s ?w = (res, w')"
    by (simp add: compile_postgres_decided [OF assms(1-4)])
  have first: "(res, w') =
      andthen (mkdir_parents False (build_dir build_base))
        (andthen
           (toolchain h build_base ''e2fs'' True run_configure build_contrib (is_outdated s b))
           (write_stamp ?p s))
        (w\<lparr>fs := (\<lambda>q. if prefix ?pb q then None else fs w q),
           trace := trace w @
             [Subprocess git_argv None 0, Subprocess git_argv None 0, Rmtree ?pb]\<rparr>)"
    if d: "fs w ?pb = Some Dir"
  proof -
    have "prefix ?pb (build_dir build_base)" by (simp add: build_dir_def)
    with d show ?thesis
      unfolding reb [symmetric]
      by (simp add: rebuild_def u prepare_build_dir_def andthen_def [of "\<lambda>w. _ w"]
          path_exists_def rmtree_def emit_def after_git_eq [OF g0] cong del: if_weak_cong)
  qed
  have second: "fs w' ?p = None \<and>
      (\<forall>force2 fresh2 configure2 contrib2.
         compile_postgres h build_base force2 fresh2 configure2 contrib2 w' =
           rebuild h build_base fresh2 configure2 contrib2 True s (after_git h w'))"
    if f: "res \<noteq> None"
  proof -
    from rebuild_failed_stamp [OF reb f u assms(7)] assms(8)
    have n: "fs w' ?p = None" by (auto simp: fs_after_git split: if_splits)
    then have "read_build_stamp ?p (fs w') = Inr None" by (rule read_build_stamp_None)
    then have "compile_postgres h build_base force2 fresh2 configure2 contrib2 w' =
           rebuild h build_base fresh2 configure2 contrib2 True s (after_git h w')"
      for force2 fresh2 configure2 contrib2
      by (simp add: compile_postgres_decided [OF assms(1-3)] is_outdated_def)
    with n show ?thesis by simp
  qed
  from first second show ?thesis by blast
qed

text \<open>
  A forced fresh build of an up-to-date target in which \<open>make\<close> fails: the directory is
  removed right after the \<open>git\<close> queries, the stamp file is gone, and the next
  invocation is the rebuild.
\<close>

theorem fresh_build_deletes_first_witness:
  "fst (compile_postgres (demo_host ''Linux'' (make_argv ''3'')) [''b''] True True False False
          (demo_world '' abc123'')) = Some (CalledProcessError 2 (make_argv ''3'')) \<and>
   take 3 (new_events (demo_world '' abc123'')
     (snd (compile_postgres (demo_host ''Linux'' (make_argv ''3'')) [''b'']
             True True False False (demo_world '' abc123'')))) =
     [Subprocess git_argv None 0, Subprocess git_argv None 0, Rmtree [''b'', ''postgres'']] \<and>
   fs (snd (compile_postgres (demo_host ''Linux'' (make_argv ''3'')) [''b'']
             True True False False (demo_world '' abc123'')))
      (postgres_build_stamp [''b'']) = None \<and>
   compile_postgres (demo_host ''Linux'' (make_argv ''3'')) [''b''] False False False False
     (snd (compile_postgres (demo_host ''Linux'' (make_argv ''3'')) [''b'']
             True True False False (demo_world '' abc123''))) =
   rebuild (demo_host ''Linux'' (make_argv ''3'')) [''b''] False False False True '' abc123''
     (after_git (demo_host ''Linux'' (make_argv ''3''))
        (snd (compile_postgres (demo_host ''Linux'' (make_argv ''3'')) [''b'']
                True True False False (demo_world '' abc123''))))"
proof -
  let ?h = "demo_host ''Linux'' (make_argv ''3'')"
  let ?w = "demo_world '' abc123''"
  let ?r = "compile_postgres ?h [''b''] True True False False ?w"
  have g: "git_submodule_status ?h = (0, '' abc123 postgres (REL_12)'')"
    by (simp add: demo_host_def)
  have s: "source_stamp_of '' abc123 postgres (REL_12)'' = Inr '' abc123''"
    by (simp add: source_stamp_of_def)
  have c: "hd '' abc123 postgres (REL_12)'' \<noteq> CHR ''-''" by simp
  have r: "read_build_stamp (postgres_build_stamp [''b'']) (fs ?w) = Inr (Some '' abc123'')"
    by (simp add: demo_defs)
  have t: "is_outdated '' abc123'' (Some '' abc123'') \<or> True" by simp
  have p: "platform_system ?h = ''Linux'' \<or> platform_system ?h = ''Darwin''"
    by (simp add: demo_host_def)
  have wf: "fs ?w (postgres_build_stamp [''b'']) \<noteq> None \<longrightarrow>
      fs ?w (postgres_build [''b'']) = Some Dir"
    by (simp add: demo_defs)
  have run: "?r = (fst ?r, snd ?r)" by simp
  have res: "fst ?r = Some (CalledProcessError 2 (make_argv ''3''))"
    by (simp add: demo_defs)
  have ev: "take 3 (new_events ?w (snd ?r)) =
     [Subprocess git_argv None 0, Subprocess git_argv None 0, Rmtree [''b'', ''postgres'']]"
    by (simp add: demo_defs)
  from fresh_build_deletes_first [OF g s c r t p demo_tool_keeps wf run] res ev
  show ?thesis by simp
qed

section \<open>How the stamp is written\<close>

text \<open>
  C5, as amended. The stamp is written in place and in two steps: \<open>open(stamp, 'w')\<close>
  creates the stamp file or empties it, at its final path, and \<open>f.write\<close> then stores the
  source stamp. No other path changes, so there is no temporary file and no rename. When
  the write has succeeded the stamp file holds exactly the source stamp; between the two
  steps it is there and empty.
\<close>

theorem stamp_write_in_place:
  assumes "write_stamp p s w = (None, w')"
  shows "open_w p w =
           (None, w\<lparr>fs := (fs w)(p \<mapsto> File []), trace := trace w @ [OpenW p]\<rparr>) \<and>
         file_write p s (w\<lparr>fs := (fs w)(p \<mapsto> File []), trace := trace w @ [OpenW p]\<rparr>) =
           (None, w') \<and>
         w' = w\<lparr>fs := (fs w)(p \<mapsto> File s), trace := trace w @ [OpenW p, WriteText p s]\<rparr> \<and>
         fs w' p = Some (File s) \<and>
         (\<forall>q. q \<noteq> p \<longrightarrow> fs w' q = fs w q)"
  using write_stamp_cases [OF assms]
  by (auto simp: file_write_def emit_def)

theorem stamp_write_in_place_witness:
  "write_stamp (postgres_build_stamp [''b'']) '' abc123'' (demo_world ''+abc123'') =
     (None, \<lparr>fs = (demo_fs ''+abc123'')(postgres_build_stamp [''b''] \<mapsto> File '' abc123''),
             trace = [OpenW (postgres_build_stamp [''b'']),
                      WriteText (postgres_build_stamp [''b'']) '' abc123'']\<rparr>) \<and>
   open_w (postgres_build_stamp [''b'']) (demo_world ''+abc123'') =
     (None, \<lparr>fs = (demo_fs ''+abc123'')(postgres_build_stamp [''b''] \<mapsto> File []),
             trace = [OpenW (postgres_build_stamp [''b''])]\<rparr>)"
proof -
  let ?p = "postgres_build_stamp [''b'']"
  let ?w = "demo_world ''+abc123''"
  have run: "write_stamp ?p '' abc123'' ?w = (None, snd (write_stamp ?p '' abc123'' ?w))"
    by (simp add: write_stamp_def andthen_def open_w_def file_write_def demo_world_def
        demo_fs_def postgres_build_stamp_def postgres_build_def)
  from stamp_write_in_place [OF run] run show ?thesis
    by (simp add: demo_world_def)
qed

text \<open>
  The stamp write over an older stamp: between the opening and the writing the stamp
  file is there and empty, which is neither the old stamp nor the new one.
\<close>

theorem stamp_write_shows_empty_file:
  "write_stamp (postgres_build_stamp [''b'']) '' abc123'' (demo_world ''+abc123'') =
     file_write (postgres_build_stamp [''b'']) '' abc123''
       (snd (open_w (postgres_build_stamp [''b'']) (demo_world ''+abc123''))) \<and>
   fst (open_w (postgres_build_stamp [''b'']) (demo_world ''+abc123'')) = None \<and>
   fs (demo_world ''+abc123'') (postgres_build_stamp [''b'']) = Some (File ''+abc123'') \<and>
   fs (snd (open_w (postgres_build_stamp [''b'']) (demo_world ''+abc123'')))
      (postgres_build_stamp [''b'']) = Some (File []) \<and>
   fs (snd (write_stamp (postgres_build_stamp [''b'']) '' abc123'' (demo_world ''+abc123'')))
      (postgres_build_stamp [''b'']) = Some (File '' abc123'') \<and>
   new_events (demo_world ''+abc123'')
     (snd (write_stamp (postgres_build_stamp [''b'']) '' abc123'' (demo_world ''+abc123''))) =
     [OpenW (postgres_build_stamp [''b'']),
      WriteText (postgres_build_stamp [''b'']) '' abc123'']"
  by (simp add: write_stamp_def andthen_def open_w_def file_write_def demo_world_def
      demo_fs_def postgres_build_stamp_def postgres_build_def emit_def new_events_def)

section \<open>One cache artifact per grammar\<close>

text \<open>
  C6. Let the three grammar modules be those of the source tree. Then in every run of
  \<open>_compile_parsers\<close>, whatever the files: the cache paths of the three modules, in the
  order of the loop, are \<open>edb/edgeql/parser/grammar/single.pickle\<close>, \<open>block.pickle\<close> and
  \<open>sdldocument.pickle\<close> below \<open>build_lib\<close>, the relative directory of the module and the
  last part of its name; the table compiler is run on the modules in that order, each
  time with the cache path of the module as its pickle file, and at most once per module;
  a run that succeeds has run it for all three, with no staleness check in between, and
  has made exactly one copy per module to the same relative path below the project root
  when \<open>inplace\<close> is on, and no copy otherwise. And when the table compiler changes
  nothing but its pickle file, no directory stands at a copy's destination and the
  destination is not an ancestor of the cache directory, each destination holds after a
  successful \<open>inplace\<close> run a file with the content of the cache file.
\<close>

theorem grammar_cache_per_spec:
  assumes "in_source_tree env"
    and "compile_parsers env build_lib inplace w = (res, w')"
  shows "map (\<lambda>spec. joinpath build_lib (pickle_path env spec)) grammar_specs =
       [build_lib @ [''edb'', ''edgeql'', ''parser'', ''grammar'', ''single.pickle''],
        build_lib @ [''edb'', ''edgeql'', ''parser'', ''grammar'', ''block.pickle''],
        build_lib @ [''edb'', ''edgeql'', ''parser'', ''grammar'', ''sdldocument.pickle'']] \<and>
     prefix (filter is_parsing (new_events w w'))
       (map (\<lambda>spec. ParsingSpec spec (path_str (joinpath build_lib (pickle_path env spec))))
          grammar_specs) \<and>
     (res = None \<longrightarrow>
        filter is_parsing (new_events w w') =
          map (\<lambda>spec. ParsingSpec spec (path_str (joinpath build_lib (pickle_path env spec))))
            grammar_specs \<and>
        filter is_copy (new_events w w') =
          (if inplace
           then map (\<lambda>spec. Copy2 (joinpath build_lib (pickle_path env spec))
                               (joinpath (ROOT_PATH env) (pickle_path env spec)))
                  grammar_specs
           else [])) \<and>
     (res = None \<and> inplace \<and> lib_writes_only_pickle env \<and>
      (\<forall>spec\<in>set grammar_specs.
          fs w (joinpath (ROOT_PATH env) (pickle_path env spec)) \<noteq> Some Dir \<and>
          \<not> prefix (joinpath (ROOT_PATH env) (pickle_path env spec))
               (butlast (joinpath build_lib (pickle_path env spec)))) \<longrightarrow>
        (\<forall>spec\<in>set grammar_specs. \<exists>t.
            fs w' (joinpath build_lib (pickle_path env spec)) = Some (File t) \<and>
            fs w' (joinpath (ROOT_PATH env) (pickle_path env spec)) = Some (File t)))"
proof -
  have jc: "joinpath build_lib (pickle_path env spec) = cache_path build_lib spec"
    and jm: "joinpath (ROOT_PATH env) (pickle_path env spec) = mirror_path env spec"
    if "spec \<in> set grammar_specs" for spec
    by (simp_all add: pickle_path_in_tree [OF assms(1) that] joinpath_def cache_path_def
        mirror_path_def)
  have bc: "butlast (cache_path build_lib spec) = build_lib @ grammar_dir" for spec
    by (simp add: cache_path_def butlast_append)
  have m1: "map (\<lambda>spec. joinpath build_lib (pickle_path env spec)) grammar_specs =
      map (cache_path build_lib) grammar_specs"
    using jc by simp
  have m2: "map (\<lambda>spec. ParsingSpec spec (path_str (joinpath build_lib (pickle_path env spec))))
      grammar_specs = map (\<lambda>spec. ParsingSpec spec (path_str (cache_path build_lib spec)))
      grammar_specs"
    using jc by simp
  have m3: "map (\<lambda>spec. Copy2 (joinpath build_lib (pickle_path env spec))
      (joinpath (ROOT_PATH env) (pickle_path env spec))) grammar_specs =
      map (\<lambda>spec. Copy2 (cache_path build_lib spec) (mirror_path env spec)) grammar_specs"
    using jc jm by simp
  from assms(2) have run: "compile_specs env build_lib inplace grammar_specs w = (res, w')"
    by (simp add: compile_parsers_def)
  from events_specD [OF did_compile_specs_parsing [OF assms(1) subset_refl] run]
  have p: "did is_parsing
      (map (\<lambda>spec. ParsingSpec spec (path_str (cache_path build_lib spec))) grammar_specs)
      res (new_events w w')" by simp
  from events_specD [OF did_compile_specs_copy [OF assms(1) subset_refl] run]
  have c: "did is_copy (if inplace
      then map (\<lambda>spec. Copy2 (cache_path build_lib spec) (mirror_path env spec)) grammar_specs
      else []) res (new_events w w')" by simp
  have f: "\<forall>spec\<in>set grammar_specs. \<exists>t.
      fs w' (joinpath build_lib (pickle_path env spec)) = Some (File t) \<and>
      fs w' (joinpath (ROOT_PATH env) (pickle_path env spec)) = Some (File t)"
    if h: "res = None \<and> inplace \<and> lib_writes_only_pickle env \<and>
      (\<forall>spec\<in>set grammar_specs.
          fs w (joinpath (ROOT_PATH env) (pickle_path env spec)) \<noteq> Some Dir \<and>
          \<not> prefix (joinpath (ROOT_PATH env) (pickle_path env spec))
               (butlast (joinpath build_lib (pickle_path env spec))))"
  proof -
    from h run have r: "compile_specs env build_lib True grammar_specs w = (None, w')" by simp
    from h have nd: "\<forall>s\<in>set grammar_specs. fs w (mirror_path env s) \<noteq> Some Dir"
      and np: "\<forall>s\<in>set grammar_specs. \<not> prefix (mirror_path env s) (build_lib @ grammar_dir)"
      using jc jm bc by auto
    from h have l: "lib_writes_only_pickle env" by simp
    from compile_specs_mirror [OF assms(1) l subset_refl distinct_grammar_specs r nd np]
    show ?thesis using jc jm by simp
  qed
  from p c f show ?thesis
    unfolding m1 m2 m3 cache_paths by (simp add: did_def)
qed

text \<open>
  A run with \<open>inplace\<close> on the sample tree: three compiler runs on the three cache paths,
  and the copy of \<open>block.pickle\<close> below the project root has the content of the cache
  file.
\<close>

theorem grammar_cache_per_spec_witness:
  "fst (compile_parsers demo_grammar_env [''b'', ''lib''] True demo_source_tree) = None \<and>
   filter is_parsing (new_events demo_source_tree
     (snd (compile_parsers demo_grammar_env [''b'', ''lib''] True demo_source_tree))) =
     [ParsingSpec ''edb.edgeql.parser.grammar.single''
        ''/b/lib/edb/edgeql/parser/grammar/single.pickle'',
      ParsingSpec ''edb.edgeql.parser.grammar.block''
        ''/b/lib/edb/edgeql/parser/grammar/block.pickle'',
      ParsingSpec ''edb.edgeql.parser.grammar.sdldocument''
        ''/b/lib/edb/edgeql/parser/grammar/sdldocument.pickle''] \<and>
   fs (snd (compile_parsers demo_grammar_env [''b'', ''lib''] True demo_source_tree))
      [''b'', ''lib'', ''edb'', ''edgeql'', ''parser'', ''grammar'', ''block.pickle''] =
     Some (File ''tables of edb.edgeql.parser.grammar.block'') \<and>
   fs (snd (compile_parsers demo_grammar_env [''b'', ''lib''] True demo_source_tree))
      [''src'', ''edb'', ''edgeql'', ''parser'', ''grammar'', ''block.pickle''] =
     Some (File ''tables of edb.edgeql.parser.grammar.block'')"
proof -
  let ?r = "compile_parsers demo_grammar_env [''b'', ''lib''] True demo_source_tree"
  have run: "?r = (fst ?r, snd ?r)" by simp
  have ok: "fst ?r = None" by (simp add: demo_grammar_defs)
  have f1: "fs (snd ?r) [''b'', ''lib'', ''edb'', ''edgeql'', ''parser'', ''grammar'', ''block.pickle'']
      = Some (File ''tables of edb.edgeql.parser.grammar.block'')"
    by (simp add: demo_grammar_defs)
  have r: "ROOT_PATH demo_grammar_env = [''src'']" by (simp add: demo_grammar_env_def)
  have nd: "\<forall>spec\<in>set grammar_specs.
      fs demo_source_tree (joinpath (ROOT_PATH demo_grammar_env) (pickle_path demo_grammar_env spec))
        \<noteq> Some Dir \<and>
      \<not> prefix (joinpath (ROOT_PATH demo_grammar_env) (pickle_path demo_grammar_env spec))
           (butlast (joinpath [''b'', ''lib''] (pickle_path demo_grammar_env spec)))"
    by (simp add: grammar_specs_def demo_pickle_paths joinpath_def r demo_source_tree_def)
  from grammar_cache_per_spec [OF demo_in_source_tree run] ok f1 nd demo_lib_writes_only_pickle
  show ?thesis
    by (simp add: grammar_specs_def demo_pickle_paths joinpath_def r path_str_def)
qed

section \<open>Old extension modules\<close>

text \<open>
  C4. Let the command be run not in place, and let a file stand at the in-place path of
  one of the Rust extensions. In every run of \<open>build_ext.run\<close> in which the Rust build step
  is started: the toolchain check and the placement loop have gone through without an
  exception; the loop has unlinked that file; up to the end of the loop nothing has been
  copied and the Rust build step has not been started; no file stands at the in-place path
  of any Rust extension when the loop ends; what follows is the setting of
  \<open>CARGO_TARGET_DIR\<close>, the Rust build step, the copies and the run of the parent command,
  and the events before the Rust build step are those of the loop and that setting. The
  copies of the run are made by \<open>shutil.copyfile\<close>, from the path below \<open>build_lib\<close> to the
  in-place path, for the extensions in their order, hence all after the Rust build step:
  an initial part of them in any run, all of them in a run that ends without an exception.
\<close>

theorem old_artifact_unlinked_before_build:
  assumes "\<not> self_inplace env" "name \<in> set (rust_extensions env)"
    and "fs w (get_ext_fullpath env True name) = Some (File c)"
    and "build_ext_run env w = (res, w')"
    and "BuildRust \<in> set (new_events w w')"
  shows "\<exists>w1. plan_placement env (rust_extensions env) (checked w) = (None, w1) \<and>
     Unlink (get_ext_fullpath env True name) \<in> set (new_events w w1) \<and>
     list_all (\<lambda>e. \<not> is_copy e \<and> e \<noteq> BuildRust) (new_events w w1) \<and>
     (\<forall>n\<in>set (rust_extensions env). \<not> is_file (fs w1 (get_ext_fullpath env True n))) \<and>
     (res, w') =
       andthen (run_build_rust env) (andthen (copy_all (copy_list env)) (run_super env))
         (emit (cargo_target_event env) w1) \<and>
     takeWhile (\<lambda>e. e \<noteq> BuildRust) (new_events w w') =
       new_events w w1 @ [cargo_target_event env] \<and>
     prefix (filter is_copy (new_events w w'))
       (map (\<lambda>n. CopyFile (get_ext_fullpath env False n) (get_ext_fullpath env True n))
          (rust_extensions env)) \<and>
     (res = None \<longrightarrow>
        filter is_copy (new_events w w') =
          map (\<lambda>n. CopyFile (get_ext_fullpath env False n) (get_ext_fullpath env True n))
            (rust_extensions env))"
proof -
  let ?t = "get_ext_fullpath env True name"
  let ?X = "map (\<lambda>n. CopyFile (get_ext_fullpath env False n) (get_ext_fullpath env True n))
      (rust_extensions env)"
  from build_ext_run_cases [OF assms(4,1)] assms(5) obtain ver w1 where
    ne: "rust_extensions env \<noteq> []" and v: "rustc_V env = Some (0, ver)"
      "\<not> version_less ver RUST_VERSION"
    and plan: "plan_placement env (rust_extensions env) (checked w) = (None, w1)"
    by blast
  note eff = plan_placement_effect [OF plan]
  from eff have "prefix (trace (checked w)) (trace w1)" by blast
  then obtain pe where pe: "trace w1 = trace (checked w) @ pe" by (auto simp: prefix_def)
  have pe_eq: "new_events (checked w) w1 = pe" by (simp add: new_events_def pe)
  have t1: "trace w1 = trace w @ [LogInfo ''running build_rust'', rustc_event] @ pe"
    by (simp add: pe trace_checked)
  have n1: "new_events w w1 = [LogInfo ''running build_rust'', rustc_event] @ pe"
    by (simp add: new_events_def t1)
  have fsc: "fs (checked w) = fs w" by (simp add: checked_def emit_def)
  from assms(3) have "is_file (fs (checked w) ?t)" by (simp add: fsc is_file_def)
  moreover from eff assms(2) have "\<not> is_file (fs w1 ?t)" by blast
  ultimately have u: "Unlink ?t \<in> set pe" using eff unfolding pe_eq by blast
  from eff have "list_all is_placement pe" unfolding pe_eq by blast
  then have nc: "list_all (\<lambda>e. \<not> is_copy e \<and> e \<noteq> BuildRust) pe"
    by (auto simp: list_all_iff dest: is_placement_not_copy)
  let ?w2 = "emit (cargo_target_event env) w1"
  let ?K = "andthen (copy_all (copy_list env)) (run_super env)"
  from build_ext_run_unfold [OF ne v assms(1) plan] assms(4)
  have run: "andthen (run_build_rust env) ?K ?w2 = (res, w')" by simp
  have cl: "map (\<lambda>(s, d). CopyFile s d) (copy_list env) = ?X"
    using assms(1) by (simp add: copy_list_def comp_def)
  have t2: "trace ?w2 = trace w1 @ [cargo_target_event env]" by (simp add: emit_def)
  have "\<exists>post. trace w' = trace ?w2 @ BuildRust # post \<and> did is_copy ?X res post"
    using run
  proof (cases rule: andthen_cases)
    case (first e)
    from run_build_rust_events [OF first(1)] first(2) show ?thesis
      by (simp add: did_def)
  next
    case (second wb)
    from events_specD [OF did_copies_then_super second(2)]
    have "trace w' = trace wb @ new_events wb w'" "did is_copy ?X res (new_events wb w')"
      by (simp_all add: cl)
    with run_build_rust_events [OF second(1)] show ?thesis by simp
  qed
  then obtain post where post: "trace w' = trace ?w2 @ BuildRust # post"
    "did is_copy ?X res post" by blast
  from post(1) have n: "new_events w w' =
      new_events w w1 @ [cargo_target_event env] @ BuildRust # post"
    by (simp add: new_events_def [of w w'] t2 t1 n1)
  have nb: "\<And>e. e \<in> set (new_events w w1 @ [cargo_target_event env]) \<Longrightarrow> e \<noteq> BuildRust"
    using nc by (auto simp: n1 list_all_iff rustc_event_def cargo_target_event_def)
  have "takeWhile (\<lambda>e. e \<noteq> BuildRust)
      ((new_events w w1 @ [cargo_target_event env]) @ BuildRust # post) =
      (new_events w w1 @ [cargo_target_event env]) @
        takeWhile (\<lambda>e. e \<noteq> BuildRust) (BuildRust # post)"
    by (rule takeWhile_append2) (rule nb)
  then have tw: "takeWhile (\<lambda>e. e \<noteq> BuildRust) (new_events w w') =
      new_events w w1 @ [cargo_target_event env]"
    unfolding n by simp
  have fpe: "filter is_copy pe = []"
    using nc by (simp add: filter_empty_conv list_all_iff)
  have fc: "filter is_copy (new_events w w') = filter is_copy post"
    unfolding n n1 by (simp add: fpe rustc_event_def cargo_target_event_def)
  have c2: "Unlink ?t \<in> set (new_events w w1)" using u by (simp add: n1)
  have c3: "list_all (\<lambda>e. \<not> is_copy e \<and> e \<noteq> BuildRust) (new_events w w1)"
    using nc by (simp add: n1 rustc_event_def)
  have c4: "\<forall>n\<in>set (rust_extensions env). \<not> is_file (fs w1 (get_ext_fullpath env True n))"
    using eff by blast
  have c7: "prefix (filter is_copy (new_events w w')) ?X"
    using post(2) by (simp add: fc did_def split: option.splits)
  have c8: "res = None \<longrightarrow> filter is_copy (new_events w w') = ?X"
    using post(2) by (simp add: fc did_def)
  show ?thesis
    apply (rule exI [of _ w1])
    apply (intro conjI)
           apply (rule plan)
          apply (rule c2)
         apply (rule c3)
        apply (rule c4)
       apply (rule run [symmetric])
      apply (rule tw)
     apply (rule c7)
    apply (rule c8)
    done
qed

text \<open>
  A run with an old module at the in-place path: it is unlinked before the Rust build
  step, and the copy that follows the build puts the new module there.
\<close>

theorem old_artifact_unlinked_before_build_witness:
  "fst (build_ext_run demo_ext_env demo_ext_world) = None \<and>
   new_events demo_ext_world (snd (build_ext_run demo_ext_env demo_ext_world)) =
     [LogInfo ''running build_rust'', Subprocess [''rustc'', ''-V''] None 0,
      Unlink [''src'', ''edb'', ''_edgeql_rust.so''],
      SetEnv ''CARGO_TARGET_DIR'' ''/b/temp/rust/extensions'', BuildRust,
      CopyFile [''b'', ''lib'', ''edb'', ''_edgeql_rust.so'']
        [''src'', ''edb'', ''_edgeql_rust.so''],
      SuperRun] \<and>
   fs (snd (build_ext_run demo_ext_env demo_ext_world)) [''src'', ''edb'', ''_edgeql_rust.so'']
     = Some (File ''new'') \<and>
   (\<exists>w1. plan_placement demo_ext_env (rust_extensions demo_ext_env) (checked demo_ext_world)
           = (None, w1) \<and>
      Unlink [''src'', ''edb'', ''_edgeql_rust.so''] \<in> set (new_events demo_ext_world w1) \<and>
      \<not> is_file (fs w1 [''src'', ''edb'', ''_edgeql_rust.so'']))"
proof -
  let ?r = "build_ext_run demo_ext_env demo_ext_world"
  have i: "\<not> self_inplace demo_ext_env" by (simp add: demo_ext_env_def)
  have n: "''edb._edgeql_rust'' \<in> set (rust_extensions demo_ext_env)"
    by (simp add: demo_ext_env_def)
  have f: "fs demo_ext_world (get_ext_fullpath demo_ext_env True ''edb._edgeql_rust'')
      = Some (File ''old'')"
    by (simp add: demo_ext_target) (simp add: demo_ext_world_def)
  have run: "?r = (fst ?r, snd ?r)" by simp
  have ok: "fst ?r = None" by (simp add: demo_ext_defs)
  have ev: "new_events demo_ext_world (snd ?r) =
     [LogInfo ''running build_rust'', Subprocess [''rustc'', ''-V''] None 0,
      Unlink [''src'', ''edb'', ''_edgeql_rust.so''],
      SetEnv ''CARGO_TARGET_DIR'' ''/b/temp/rust/extensions'', BuildRust,
      CopyFile [''b'', ''lib'', ''edb'', ''_edgeql_rust.so'']
        [''src'', ''edb'', ''_edgeql_rust.so''],
      SuperRun]"
    by (simp add: demo_ext_defs)
  have new: "fs (snd ?r) [''src'', ''edb'', ''_edgeql_rust.so''] = Some (File ''new'')"
    by (simp add: demo_ext_defs)
  have b: "BuildRust \<in> set (new_events demo_ext_world (snd ?r))" by (simp add: ev)
  from old_artifact_unlinked_before_build [OF i n f run b] obtain w1 where
    "plan_placement demo_ext_env (rust_extensions demo_ext_env) (checked demo_ext_world) = (None, w1)"
    "Unlink (get_ext_fullpath demo_ext_env True ''edb._edgeql_rust'')
       \<in> set (new_events demo_ext_world w1)"
    "\<forall>n\<in>set (rust_extensions demo_ext_env).
       \<not> is_file (fs w1 (get_ext_fullpath demo_ext_env True n))"
    by blast
  with n have "\<exists>w1. plan_placement demo_ext_env (rust_extensions demo_ext_env) (checked demo_ext_world)
           = (None, w1) \<and>
      Unlink [''src'', ''edb'', ''_edgeql_rust.so''] \<in> set (new_events demo_ext_world w1) \<and>
      \<not> is_file (fs w1 [''src'', ''edb'', ''_edgeql_rust.so''])"
    unfolding demo_ext_target [symmetric] by blast
  with ok ev new show ?thesis by blast
qed

end
